theory Spec2Isabelle
  imports Main "HOL-Library.Word" "HOL-Library.Multiset" "HOL-Library.Code_Target_Nat"
begin

chapter \<open>The model\<close>

section \<open>Array layout of the particle buffers (class ArrayLayout, computeLayout)\<close>

text \<open>
  The C++ type \<open>int\<close> appears in two roles. Node indices and positions in the node list
  are only compared, sorted and used as subscripts; they are modelled as \<open>int\<close>.
  Particle counts and buffer offsets are added up, so they are 32-bit words: addition
  wraps as two's complement addition does. The global counts are \<open>std::size_t\<close>, 64-bit
  words, and the assignment to an \<open>int\<close> keeps the low 32 bits.

  A subscript outside a vector (undefined behaviour in C++) is the error \<open>OutOfBounds\<close>;
  \<open>std::unordered_map::at\<close> on a missing key throws \<open>std::out_of_range\<close>, the error
  \<open>OutOfRange\<close>.
\<close>

datatype error = OutOfRange | OutOfBounds

definition at_vec :: "'a list \<Rightarrow> int \<Rightarrow> error + 'a" where
  "at_vec xs i = (if 0 \<le> i \<and> i < int (length xs) then Inr (xs ! nat i) else Inl OutOfBounds)"

text \<open>
  The members \<open>ranges_\<close>, \<open>global2local_\<close>, \<open>nodeList_\<close> and \<open>offsets_\<close> of the class; a
  name cannot end in an underscore here, so they carry the prefix \<open>al\<close> instead.
\<close>

record ArrayLayout =
  al_ranges :: "(32 word \<times> 32 word) list"
  al_global2local :: "int \<rightharpoonup> int"
  al_nodeList :: "int list"
  al_offsets :: "32 word list"

text \<open>The constructor's loop \<open>global2local_[nodeList[i]] = i\<close>, started at position \<open>i\<close>.\<close>

fun fill_global2local :: "int list \<Rightarrow> int \<Rightarrow> (int \<rightharpoonup> int) \<Rightarrow> (int \<rightharpoonup> int)" where
  "fill_global2local [] i m = m"
| "fill_global2local (g # gs) i m = fill_global2local gs (i + 1) (m(g \<mapsto> i))"

definition newArrayLayout :: "int list \<Rightarrow> 32 word list \<Rightarrow> ArrayLayout" where
  "newArrayLayout nodeList offsets =
     \<lparr>al_ranges = [], al_global2local = fill_global2local nodeList 0 Map.empty,
      al_nodeList = nodeList, al_offsets = offsets\<rparr>"

definition nodePosition :: "ArrayLayout \<Rightarrow> int \<Rightarrow> error + 32 word" where
  "nodePosition L globalNodeIndex =
     (case al_global2local L globalNodeIndex of
        None \<Rightarrow> Inl OutOfRange
      | Some localIndex \<Rightarrow> at_vec (al_offsets L) localIndex)"

definition nodeCount :: "ArrayLayout \<Rightarrow> int \<Rightarrow> error + 32 word" where
  "nodeCount L globalNodeIndex =
     (case al_global2local L globalNodeIndex of
        None \<Rightarrow> Inl OutOfRange
      | Some localIndex \<Rightarrow>
         (case at_vec (al_offsets L) (localIndex + 1) of
            Inl e \<Rightarrow> Inl e
          | Inr hi \<Rightarrow>
             (case at_vec (al_offsets L) localIndex of
                Inl e \<Rightarrow> Inl e
              | Inr lo \<Rightarrow> Inr (hi - lo))))"

definition totalSize :: "ArrayLayout \<Rightarrow> error + 32 word" where
  "totalSize L = at_vec (al_offsets L) (int (length (al_nodeList L)))"

definition addLocalRange :: "ArrayLayout \<Rightarrow> int \<Rightarrow> int \<Rightarrow> error + ArrayLayout" where
  "addLocalRange L lowerGlobalNodeIndex upperGlobalNodeIndex =
     (let nNodes = upperGlobalNodeIndex - lowerGlobalNodeIndex in
      case al_global2local L lowerGlobalNodeIndex of
        None \<Rightarrow> Inl OutOfRange
      | Some localIndex \<Rightarrow>
         (case at_vec (al_offsets L) localIndex of
            Inl e \<Rightarrow> Inl e
          | Inr lowerOffset \<Rightarrow>
             (case at_vec (al_offsets L) (localIndex + nNodes) of
                Inl e \<Rightarrow> Inl e
              | Inr upperOffset \<Rightarrow>
                 Inr (L\<lparr>al_ranges := al_ranges L @ [(lowerOffset, upperOffset)]\<rparr>))))"

text \<open>
  \<open>IndexRanges\<close> is declared in a header that is not part of the sources at hand; the code
  only reads \<open>nRanges\<close>, \<open>rangeStart\<close> and \<open>rangeEnd\<close> of it, so it is taken as the list of
  its (start, end) pairs.
\<close>

type_synonym IndexRanges = "(int \<times> int) list"

text \<open>The first loop of computeLayout: every index of every local range is appended.\<close>

fun addLocalNodes :: "IndexRanges \<Rightarrow> int list \<Rightarrow> int list" where
  "addLocalNodes [] nodeList = nodeList"
| "addLocalNodes ((lower, upper) # rs) nodeList = addLocalNodes rs (nodeList @ [lower..upper - 1])"

text \<open>The extraction loop \<open>nodeCounts[i] = globalNodeCounts[nodeList[i]]\<close>.\<close>

fun extractCounts :: "64 word list \<Rightarrow> int list \<Rightarrow> error + 32 word list" where
  "extractCounts globalNodeCounts [] = Inr []"
| "extractCounts globalNodeCounts (g # gs) =
     (case at_vec globalNodeCounts g of
        Inl e \<Rightarrow> Inl e
      | Inr c \<Rightarrow>
         (case extractCounts globalNodeCounts gs of
            Inl e \<Rightarrow> Inl e
          | Inr cs \<Rightarrow> Inr (ucast c # cs)))"

text \<open>The scan loop: \<open>offsets[i] = offset; offset += nodeCounts[i]\<close>, then the total.\<close>

fun scanOffsets :: "32 word \<Rightarrow> 32 word list \<Rightarrow> 32 word list" where
  "scanOffsets offset [] = [offset]"
| "scanOffsets offset (c # cs) = offset # scanOffsets (offset + c) cs"

fun addLocalRanges :: "ArrayLayout \<Rightarrow> IndexRanges \<Rightarrow> error + ArrayLayout" where
  "addLocalRanges L [] = Inr L"
| "addLocalRanges L ((lower, upper) # rs) =
     (case addLocalRange L lower upper of
        Inl e \<Rightarrow> Inl e
      | Inr L' \<Rightarrow> addLocalRanges L' rs)"

definition computeLayout :: "IndexRanges \<Rightarrow> int list \<Rightarrow> 64 word list \<Rightarrow> error + ArrayLayout" where
  "computeLayout localNodes haloNodes globalNodeCounts =
     (let nodeList = sort (addLocalNodes localNodes haloNodes) in
      case extractCounts globalNodeCounts nodeList of
        Inl e \<Rightarrow> Inl e
      | Inr nodeCounts \<Rightarrow>
          addLocalRanges (newArrayLayout nodeList (scanOffsets 0 nodeCounts)) localNodes)"

text \<open>The indices listed by the local ranges, range after range (each range is half open).\<close>

definition localNodeIndices :: "IndexRanges \<Rightarrow> int list" where
  "localNodeIndices localNodes = concat (map (\<lambda>(lower, upper). [lower..upper - 1]) localNodes)"

section \<open>Counting particles for a peer's request (countFocusParticles)\<close>

text \<open>
  \<open>std::lower_bound\<close> of the standard library, by its contract: on a range that is sorted
  it returns the first position whose element is not less than the value.
\<close>

definition lower_bound :: "'a::linorder list \<Rightarrow> 'a \<Rightarrow> nat" where
  "lower_bound xs val = length (takeWhile (\<lambda>x. x < val) xs)"

text \<open>
  \<open>std::accumulate(begin(counts) + startIdx, begin(counts) + endIdx, 0u)\<close>: the sum of
  the elements in between, in \<open>unsigned\<close> arithmetic. A range that runs backwards or ends
  behind the vector is undefined behaviour.
\<close>

definition accumulate :: "32 word list \<Rightarrow> nat \<Rightarrow> nat \<Rightarrow> error + 32 word" where
  "accumulate counts startIdx endIdx =
     (if startIdx \<le> endIdx \<and> endIdx \<le> length counts
      then Inr (sum_list (take (endIdx - startIdx) (drop startIdx counts)))
      else Inl OutOfBounds)"

text \<open>One iteration of the loop: the count for the requested node \<open>i\<close>.\<close>

definition countFocusNode ::
  "'a::len word list \<Rightarrow> 32 word list \<Rightarrow> 'a word list \<Rightarrow> int \<Rightarrow> error + 32 word" where
  "countFocusNode leaves counts requestLeaves i =
     (case at_vec requestLeaves i of
        Inl e \<Rightarrow> Inl e
      | Inr startKey \<Rightarrow>
         (case at_vec requestLeaves (i + 1) of
            Inl e \<Rightarrow> Inl e
          | Inr endKey \<Rightarrow>
              accumulate counts (lower_bound leaves startKey) (lower_bound leaves endKey)))"

text \<open>
  The loop over the requested nodes, from \<open>i\<close> on. The iterations are independent and
  write to different places, so the parallel loop is run in order.
\<close>

function countFocusLoop ::
  "int \<Rightarrow> int \<Rightarrow> 'a::len word list \<Rightarrow> 32 word list \<Rightarrow> 'a word list \<Rightarrow> 32 word list
     \<Rightarrow> error + 32 word list" where
  "countFocusLoop i numNodes leaves counts requestLeaves requestCounts =
     (if i < numNodes
      then (case countFocusNode leaves counts requestLeaves i of
              Inl e \<Rightarrow> Inl e
            | Inr c \<Rightarrow>
                if 0 \<le> i \<and> i < int (length requestCounts)
                then countFocusLoop (i + 1) numNodes leaves counts requestLeaves
                       (requestCounts[nat i := c])
                else Inl OutOfBounds)
      else Inr requestCounts)"
  by pat_completeness auto
termination
  by (relation "measure (\<lambda>(i, numNodes, _). nat (numNodes - i))") auto

definition countFocusParticles ::
  "int \<Rightarrow> 'a::len word list \<Rightarrow> 32 word list \<Rightarrow> 'a word list \<Rightarrow> 32 word list
     \<Rightarrow> error + 32 word list" where
  "countFocusParticles numNodes leaves counts requestLeaves requestCounts =
     countFocusLoop 0 numNodes leaves counts requestLeaves requestCounts"

text \<open>
  The leaves of the local tree contained in a span of keys: leaf \<open>j\<close> is
  [\<open>leaves ! j\<close>, \<open>leaves ! (j + 1)\<close>).
\<close>

definition leavesInSpan :: "'a::len word list \<Rightarrow> 'a word \<Rightarrow> 'a word \<Rightarrow> nat list" where
  "leavesInSpan leaves startKey endKey =
     filter (\<lambda>j. startKey \<le> leaves ! j \<and> leaves ! Suc j \<le> endKey) [0..<length leaves - 1]"

section \<open>Cornerstone octree: keys, levels, invariants\<close>

text \<open>
  Modelled from the spec: the headers with \<open>nodeRange\<close>, \<open>treeLevel\<close>, \<open>maxTreeLevel\<close> and
  \<open>nNodes\<close> (cstone/sfc, cstone/tree/octree.hpp) are not among the sources. An SFC key is a
  natural number below \<open>nodeRange(0) = 8 ^ maxTreeLevel\<close>, with \<open>maxTreeLevel\<close> 10 for the
  30-bit keys and 21 for the 63-bit keys; no operation below leaves that range on a valid
  tree, so the width of the machine integer plays no part. The parameter \<open>L\<close> is
  \<open>maxTreeLevel\<close>. \<open>nodeRange(l)\<close> is the span of a node at level \<open>l\<close>; \<open>treeLevel\<close> is its
  inverse on the powers of eight, the level of a node with the given span (the unit test
  overlapTest has \<open>treeLevel\<close> of the span of a level-2 node equal to 2).
\<close>

definition nodeRange :: "nat \<Rightarrow> nat \<Rightarrow> nat" where
  "nodeRange L l = 8 ^ (L - l)"

fun log8 :: "nat \<Rightarrow> nat" where
  "log8 r = (if r < 8 then 0 else Suc (log8 (r div 8)))"

declare log8.simps [simp del]

definition treeLevel :: "nat \<Rightarrow> nat \<Rightarrow> nat" where
  "treeLevel L r = L - log8 r"

definition nNodes :: "nat list \<Rightarrow> nat" where
  "nNodes tree = length tree - 1"

fun isPow8 :: "nat \<Rightarrow> bool" where
  "isPow8 r = (if r = 1 then True else if 8 \<le> r \<and> r mod 8 = 0 then isPow8 (r div 8) else False)"

declare isPow8.simps [simp del]

text \<open>The span of leaf \<open>i\<close> of a tree, \<open>tree[i+1] - tree[i]\<close>.\<close>

definition leafRange :: "nat list \<Rightarrow> nat \<Rightarrow> nat" where
  "leafRange tree i = tree ! Suc i - tree ! i"

text \<open>
  Modelled from the spec: \<open>checkOctreeInvariants\<close> is called by the unit tests and defined
  in a header that is not among the sources. It is the invariant of section 8 of the
  spec: the first key is 0, the last key is \<open>nodeRange(0)\<close>, the keys increase strictly, and
  every span is a power of eight of which the start key of the leaf is a multiple.
\<close>

definition checkOctreeInvariants :: "nat \<Rightarrow> nat list \<Rightarrow> bool" where
  "checkOctreeInvariants L tree =
     (tree \<noteq> [] \<and> tree ! 0 = 0 \<and> tree ! nNodes tree = nodeRange L 0 \<and>
      sorted_wrt (<) tree \<and>
      list_all (\<lambda>i. isPow8 (leafRange tree i) \<and> leafRange tree i dvd tree ! i) [0..<nNodes tree])"

section \<open>Rebalancing decisions (rebalanceDecision)\<close>

text \<open>
  Modelled from the spec: \<open>rebalanceDecision\<close> is defined in cstone/tree/octree.hpp, which
  is not among the sources; the model follows section 4.3 of the spec and the reference
  values of the unit tests rebalanceDecision, rebalanceDecisionSingleRoot and
  rebalanceInsufficentResolution.

  Eight consecutive leaves of the same span whose first key is a multiple of eight spans
  are the eight children of one parent. The place of a leaf among its siblings is the
  octal digit of its key at its own level. \<open>siblingGroup\<close> gives the index of the first
  sibling when the leaf and its seven siblings are all leaves of the tree.
\<close>

definition siblingIndex :: "nat list \<Rightarrow> nat \<Rightarrow> nat" where
  "siblingIndex tree i = (tree ! i div leafRange tree i) mod 8"

definition siblingGroup :: "nat list \<Rightarrow> nat \<Rightarrow> nat option" where
  "siblingGroup tree i =
     (let s = siblingIndex tree i in
      if s \<le> i \<and> i - s + 8 \<le> nNodes tree \<and>
         list_all (\<lambda>k. leafRange tree (i - s + k) = leafRange tree i) [0..<8]
      then Some (i - s) else None)"

text \<open>The combined count of the eight leaves from index \<open>f\<close> on.\<close>

definition groupCount :: "nat list \<Rightarrow> nat \<Rightarrow> nat" where
  "groupCount counts f = sum_list (map ((!) counts) [f..<f + 8])"

text \<open>
  The opcode of one leaf. A merge is written as in the reference values of the tests: the
  first sibling keeps its key (opcode 1), which is the key of the parent, and each of the
  other seven siblings gets opcode 0. A leaf is split (opcode 8) when its count exceeds the
  bucket size, unless it is at the deepest level.
\<close>

definition nodeOp :: "nat \<Rightarrow> nat list \<Rightarrow> nat list \<Rightarrow> nat \<Rightarrow> nat \<Rightarrow> nat" where
  "nodeOp L tree counts bucketSize i =
     (if (case siblingGroup tree i of
            Some f \<Rightarrow> f < i \<and> groupCount counts f \<le> bucketSize
          | None \<Rightarrow> False)
      then 0
      else if bucketSize < counts ! i \<and> treeLevel L (leafRange tree i) < L then 8
      else 1)"

text \<open>The opcodes of all leaves, and whether every one of them is 1 (convergence).\<close>

definition rebalanceDecision :: "nat \<Rightarrow> nat list \<Rightarrow> nat list \<Rightarrow> nat \<Rightarrow> nat list \<times> bool" where
  "rebalanceDecision L tree counts bucketSize =
     (let nodeOps = map (nodeOp L tree counts bucketSize) [0..<nNodes tree]
      in (nodeOps, list_all (\<lambda>op. op = 1) nodeOps))"

section \<open>Rebalancing a tree (rebalanceTree)\<close>

text \<open>
  Modelled from the spec: \<open>rebalanceTree\<close> is defined in cstone/tree/octree.hpp, which is
  not among the sources. For each leaf the keys written are decoded from its opcode: keep
  (1) copies the start key, split (8) writes the start keys of the eight children, merge (0)
  writes nothing, the key of the parent being the key kept by the first sibling. The last
  key of the tree closes the new tree.
\<close>

definition nodeKeys :: "nat list \<Rightarrow> nat \<Rightarrow> nat \<Rightarrow> nat list" where
  "nodeKeys tree i op =
     (if op = 1 then [tree ! i]
      else if op = 8 then map (\<lambda>k. tree ! i + k * (leafRange tree i div 8)) [0..<8]
      else [])"

definition rebalanceTree :: "nat list \<Rightarrow> nat list \<Rightarrow> nat list" where
  "rebalanceTree tree nodeOps =
     concat (map (\<lambda>i. nodeKeys tree i (nodeOps ! i)) [0..<nNodes tree]) @ [tree ! nNodes tree]"

section \<open>Building a tree (computeNodeCounts, updateOctree, computeOctree)\<close>

text \<open>
  Modelled from the spec: \<open>computeNodeCounts\<close>, \<open>updateOctree\<close> and \<open>computeOctree\<close> are
  defined in cstone/tree/octree.hpp, which is not among the sources. The count of a leaf is
  the number of sorted keys in its span, found by two binary searches and capped at
  \<open>maxPerNode\<close>. The tree is built by the fixed-point iteration count, decide, rebalance,
  which ends when the decision reports convergence; the number of iterations is capped, and
  reaching the cap is the fatal divergence of the spec, the result \<open>None\<close>. The counts are
  capped at the largest \<open>unsigned\<close>, as in the unit tests. \<open>computeOctree\<close> starts from the
  tree that has the root as its only leaf, \<open>updateOctree\<close> from the tree given.
\<close>

definition computeNodeCounts :: "nat list \<Rightarrow> nat list \<Rightarrow> nat \<Rightarrow> nat list" where
  "computeNodeCounts tree keys maxPerNode =
     map (\<lambda>i. min maxPerNode (lower_bound keys (tree ! Suc i) - lower_bound keys (tree ! i)))
       [0..<nNodes tree]"

fun updateOctree :: "nat \<Rightarrow> nat \<Rightarrow> nat list \<Rightarrow> nat \<Rightarrow> nat list \<Rightarrow> (nat list \<times> nat list) option" where
  "updateOctree 0 L keys bucketSize tree = None"
| "updateOctree (Suc maxIterations) L keys bucketSize tree =
     (let counts = computeNodeCounts tree keys (2 ^ 32 - 1);
          (nodeOps, converged) = rebalanceDecision L tree counts bucketSize
      in if converged then Some (tree, counts)
         else updateOctree maxIterations L keys bucketSize (rebalanceTree tree nodeOps))"

definition computeOctree :: "nat \<Rightarrow> nat \<Rightarrow> nat list \<Rightarrow> nat \<Rightarrow> (nat list \<times> nat list) option" where
  "computeOctree maxIterations L keys bucketSize =
     updateOctree maxIterations L keys bucketSize [0, nodeRange L 0]"

section \<open>Spanning tree of a set of cornerstones (computeSpanningTree)\<close>

text \<open>
  Modelled from the spec: \<open>computeSpanningTree\<close> is defined in cstone/tree/octree.hpp,
  which is not among the sources. The result is the coarsest tree that has every given key
  as a leaf boundary: between two neighbouring cornerstones each leaf is the largest node
  that starts at the current key and does not reach beyond the next cornerstone. The unit
  test computeSpanningTree fixes the sizes 9 and 135 of its second and third case.
\<close>

fun largestNodeRange :: "nat \<Rightarrow> nat \<Rightarrow> nat \<Rightarrow> nat" where
  "largestNodeRange 0 a b = 1"
| "largestNodeRange (Suc l) a b =
     (if 8 ^ Suc l dvd a \<and> a + 8 ^ Suc l \<le> b then 8 ^ Suc l else largestNodeRange l a b)"

function spanRange :: "nat \<Rightarrow> nat \<Rightarrow> nat \<Rightarrow> nat list" where
  "spanRange L a b = (if a < b then a # spanRange L (a + largestNodeRange L a b) b else [])"
  by pat_completeness auto
termination
proof (relation "measure (\<lambda>(L, a, b). b - a)")
  show "wf (measure (\<lambda>(L, a, b). b - a))" by simp
next
  fix L a b :: nat
  assume ab: "a < b"
  have "0 < largestNodeRange L a b" by (induction L) auto
  with ab show "((L, a + largestNodeRange L a b, b), (L, a, b)) \<in> measure (\<lambda>(L, a, b). b - a)"
    by simp
qed

declare spanRange.simps [simp del]

text \<open>The loop over the pairs of neighbouring cornerstones; the last one closes the tree.\<close>

fun computeSpanningTree :: "nat \<Rightarrow> nat list \<Rightarrow> nat list" where
  "computeSpanningTree L [] = []"
| "computeSpanningTree L [c] = [c]"
| "computeSpanningTree L (a # b # cornerstones) =
     spanRange L a b @ computeSpanningTree L (b # cornerstones)"

text \<open>
  The tree of the tests, \<open>OctreeMaker().divide().divide(0)\<close>, for 30-bit keys: the
  eight children of the first octant, then the other seven octants.
\<close>

definition testTree :: "nat list" where
  "testTree = map (\<lambda>k. k * 8 ^ 8) [0..<8] @ map (\<lambda>k. k * 8 ^ 9) [1..<9]"

section \<open>Notions for the proofs about rebalancing\<close>

text \<open>
  Two neighbouring keys bound a node when the span between them is a power of eight of
  which the first key is a multiple.
\<close>

definition isNode :: "nat \<Rightarrow> nat \<Rightarrow> bool" where
  "isNode a b = (a < b \<and> isPow8 (b - a) \<and> (b - a) dvd a)"

text \<open>
  The keys written for leaf \<open>i\<close> by a rebalancing step, and the keys written for the leaves
  from \<open>i\<close> on, closed by the last key of the tree.
\<close>

definition newKeys :: "nat \<Rightarrow> nat list \<Rightarrow> nat list \<Rightarrow> nat \<Rightarrow> nat \<Rightarrow> nat list" where
  "newKeys L tree counts bucketSize i = nodeKeys tree i (nodeOp L tree counts bucketSize i)"

definition keysFrom :: "nat \<Rightarrow> nat list \<Rightarrow> nat list \<Rightarrow> nat \<Rightarrow> nat \<Rightarrow> nat list" where
  "keysFrom L tree counts bucketSize i =
     concat (map (newKeys L tree counts bucketSize) [i..<nNodes tree]) @ [tree ! nNodes tree]"

section \<open>Halo radii per leaf (computeHaloRadii)\<close>

text \<open>
  Modelled from the spec: \<open>computeHaloRadii\<close> is defined in cstone/tree/octree.hpp, which
  is not among the sources. The particles of leaf \<open>i\<close> are the positions of the sorted keys
  between the two binary searches for the bounds of the leaf; the smoothing length of the
  particle at position \<open>p\<close> is looked up through the permutation, \<open>input[ordering[p]]\<close>, and
  the aggregate is the maximum (section 4.7 of the spec). The reference values of the unit
  tests computeHaloRadii and computeHaloRadii_spanningTree fix what the spec leaves out:
  the value written is twice the maximum, and it is 0 for a leaf without particles, so the
  maximum starts from 0. The smoothing lengths are elements of an ordered ring; taking a
  maximum and doubling are exact on floating-point numbers as well.
\<close>

definition computeHaloRadii ::
  "nat list \<Rightarrow> nat list \<Rightarrow> nat list \<Rightarrow> 'a::linordered_idom list \<Rightarrow> 'a list" where
  "computeHaloRadii tree keys particleOrder input =
     map (\<lambda>i. 2 * fold max
                  (map (\<lambda>p. input ! (particleOrder ! p))
                     [lower_bound keys (tree ! i)..<lower_bound keys (tree ! Suc i)]) 0)
       [0..<nNodes tree]"

text \<open>The positions of the particles whose keys lie in the span of leaf \<open>i\<close>.\<close>

definition particlesInLeaf :: "nat list \<Rightarrow> nat list \<Rightarrow> nat \<Rightarrow> nat set" where
  "particlesInLeaf tree keys i =
     {p \<in> {0..<length keys}. tree ! i \<le> keys ! p \<and> keys ! p < tree ! Suc i}"

section \<open>Rebalancing decisions of the focused tree (rebalanceDecisionEssential)\<close>

text \<open>
  Modelled from the spec: \<open>rebalanceDecisionEssential\<close> is defined in
  cstone/tree/octree_focus.hpp, which is not among the sources; its unit test is. The
  arguments are those of the call in the test: the leaves of the tree, the number of
  internal nodes, the number of leaves, the parent of each leaf, the count of each leaf,
  the MAC flags (internal nodes first, then the leaves; 0 is false), the focus as the
  interval of leaf indices from \<open>firstFocusNode\<close> up to \<open>lastFocusNode\<close>, and the bucket size.

  The rules are those of section 4.5 of the spec; the four reference vectors of the test
  agree with them. A group of eight sibling leaves that lies inside the focus is merged on
  counts alone, as in \<open>rebalanceDecision\<close>. A group that lies outside the focus is merged
  when its combined count is within the bucket size (first case of the test: counts win,
  nodes are fused) or when the MAC flag of the parent is false (third case). A group with
  a sibling inside the focus and a sibling outside stays at its resolution: it is never
  merged (fourth case of the test, and the last rule of section 4.5). A leaf inside the
  focus is split when its count exceeds the bucket size; a leaf outside the focus is split
  only when, in addition, its own MAC flag is true (second and fourth case). As in
  \<open>rebalanceDecision\<close>, a merge gives opcode 0 to the seven later siblings, and no leaf at
  the deepest level is split.
\<close>

definition essentialOp ::
  "nat \<Rightarrow> nat list \<Rightarrow> nat \<Rightarrow> nat list \<Rightarrow> nat list \<Rightarrow> nat list \<Rightarrow> nat \<Rightarrow> nat \<Rightarrow> nat \<Rightarrow> nat \<Rightarrow> nat"
  where
  "essentialOp L tree numInternalNodes leafParents leafCounts macs firstFocusNode lastFocusNode
     bucketSize i =
     (if (case siblingGroup tree i of
            Some f \<Rightarrow>
              f < i \<and>
              (if firstFocusNode \<le> f \<and> f + 8 \<le> lastFocusNode
               then groupCount leafCounts f \<le> bucketSize
               else if f + 8 \<le> firstFocusNode \<or> lastFocusNode \<le> f
               then groupCount leafCounts f \<le> bucketSize \<or> macs ! (leafParents ! i) = 0
               else False)
          | None \<Rightarrow> False)
      then 0
      else if bucketSize < leafCounts ! i \<and>
              (firstFocusNode \<le> i \<and> i < lastFocusNode \<or> macs ! (numInternalNodes + i) \<noteq> 0) \<and>
              treeLevel L (leafRange tree i) < L
      then 8
      else 1)"

definition rebalanceDecisionEssential ::
  "nat \<Rightarrow> nat list \<Rightarrow> nat \<Rightarrow> nat \<Rightarrow> nat list \<Rightarrow> nat list \<Rightarrow> nat list \<Rightarrow> nat \<Rightarrow> nat \<Rightarrow> nat
     \<Rightarrow> nat list \<times> bool" where
  "rebalanceDecisionEssential L tree numInternalNodes numLeafNodes leafParents leafCounts macs
     firstFocusNode lastFocusNode bucketSize =
     (let nodeOps = map (essentialOp L tree numInternalNodes leafParents leafCounts macs
                           firstFocusNode lastFocusNode bucketSize) [0..<numLeafNodes]
      in (nodeOps, list_all (\<lambda>op. op = 1) nodeOps))"

text \<open>
  The trees of the test for 30-bit keys: \<open>divide().divide(0).divide(7)\<close> and
  \<open>divide().divide(0).divide(1)\<close>, with the parents of their leaves.
\<close>

definition focusTestTree07 :: "nat list" where
  "focusTestTree07 =
     [0, 16777216, 33554432, 50331648, 67108864, 83886080, 100663296, 117440512, 
      134217728, 268435456, 402653184, 536870912, 671088640, 805306368, 939524096, 
      956301312, 973078528, 989855744, 1006632960, 1023410176, 1040187392, 
      1056964608, 1073741824]"

definition focusTestParents07 :: "nat list" where
  "focusTestParents07 = [1, 1, 1, 1, 1, 1, 1, 1, 0, 0, 0, 0, 0, 0, 2, 2, 2, 2, 2, 2, 2, 2]"

definition focusTestTree01 :: "nat list" where
  "focusTestTree01 =
     [0, 16777216, 33554432, 50331648, 67108864, 83886080, 100663296, 117440512, 
      134217728, 150994944, 167772160, 184549376, 201326592, 218103808, 234881024, 
      251658240, 268435456, 402653184, 536870912, 671088640, 805306368, 939524096, 
      1073741824]"

definition focusTestParents01 :: "nat list" where
  "focusTestParents01 = [1, 1, 1, 1, 1, 1, 1, 1, 2, 2, 2, 2, 2, 2, 2, 2, 0, 0, 0, 0, 0, 0]"

chapter \<open>Properties\<close>

section \<open>The array layout\<close>

lemma fill_global2local_notin:
  "g \<notin> set gs \<Longrightarrow> fill_global2local gs i m g = m g"
  by (induction gs arbitrary: i m) auto

lemma fill_global2local_in:
  "g \<in> set gs \<Longrightarrow> \<exists>k < length gs. gs ! k = g \<and> fill_global2local gs i m g = Some (i + int k)"
proof (induction gs arbitrary: i m)
  case Nil
  then show ?case by simp
next
  case (Cons a gs)
  show ?case
  proof (cases "g \<in> set gs")
    case True
    from Cons.IH [OF True, of "i + 1" "m(a \<mapsto> i)"]
    obtain k where k: "k < length gs" "gs ! k = g"
      "fill_global2local gs (i + 1) (m(a \<mapsto> i)) g = Some (i + 1 + int k)"
      by blast
    then have "Suc k < length (a # gs) \<and> (a # gs) ! Suc k = g \<and>
        fill_global2local (a # gs) i m g = Some (i + int (Suc k))"
      by simp
    then show ?thesis by blast
  next
    case False
    with Cons.prems have "g = a" by simp
    with False have "fill_global2local (a # gs) i m g = Some (i + int 0)"
      by (simp add: fill_global2local_notin)
    with \<open>g = a\<close> show ?thesis by fastforce
  qed
qed

lemma fill_global2local_distinct:
  "distinct gs \<Longrightarrow> k < length gs \<Longrightarrow> fill_global2local gs i m (gs ! k) = Some (i + int k)"
proof (induction gs arbitrary: i m k)
  case Nil
  then show ?case by simp
next
  case (Cons a gs)
  show ?case
  proof (cases k)
    case 0
    with Cons.prems show ?thesis by (simp add: fill_global2local_notin)
  next
    case (Suc j)
    with Cons.prems have dj: "distinct gs" "j < length gs" by simp_all
    have "fill_global2local gs (i + 1) (m(a \<mapsto> i)) (gs ! j) = Some (i + 1 + int j)"
      by (rule Cons.IH [OF dj])
    with Suc show ?thesis by simp
  qed
qed

lemma addLocalRange_frame:
  "addLocalRange L lower upper = Inr L' \<Longrightarrow>
     al_global2local L' = al_global2local L \<and> al_nodeList L' = al_nodeList L \<and>
     al_offsets L' = al_offsets L"
  by (auto simp: addLocalRange_def Let_def split: option.splits sum.splits)

lemma addLocalRanges_frame:
  "addLocalRanges L rs = Inr L' \<Longrightarrow>
     al_global2local L' = al_global2local L \<and> al_nodeList L' = al_nodeList L \<and>
     al_offsets L' = al_offsets L"
proof (induction rs arbitrary: L)
  case Nil
  then show ?case by simp
next
  case (Cons r rs)
  obtain lower upper where r: "r = (lower, upper)" by (cases r)
  from Cons.prems r obtain L1 where L1: "addLocalRange L lower upper = Inr L1"
    and rest: "addLocalRanges L1 rs = Inr L'"
    by (auto split: sum.splits)
  from Cons.IH [OF rest] addLocalRange_frame [OF L1] show ?case by simp
qed

text \<open>
  Claim C10. A layout is made by the constructor and then changed only by addLocalRange.
  On every such layout, \<open>nodePosition\<close>, \<open>nodeCount\<close> and \<open>addLocalRange\<close> end in
  \<open>std::out_of_range\<close> exactly for the node indices that are not in the node list given
  to the constructor: for a missing index no position or count is returned, and for a
  listed index the map lookup itself never throws.
\<close>

theorem accessors_out_of_range:
  assumes "addLocalRanges (newArrayLayout nodeList offsets) rs = Inr L"
  shows "(nodePosition L g = Inl OutOfRange \<longleftrightarrow> g \<notin> set nodeList) \<and>
         (nodeCount L g = Inl OutOfRange \<longleftrightarrow> g \<notin> set nodeList) \<and>
         (addLocalRange L g upper = Inl OutOfRange \<longleftrightarrow> g \<notin> set nodeList)"
proof -
  from addLocalRanges_frame [OF assms]
  have m: "al_global2local L = fill_global2local nodeList 0 Map.empty"
    by (simp add: newArrayLayout_def)
  show ?thesis
  proof (cases "g \<in> set nodeList")
    case True
    from fill_global2local_in [OF True, of 0 Map.empty] m
    obtain k where "al_global2local L g = Some (int k)" by auto
    with True show ?thesis
      by (auto simp: nodePosition_def nodeCount_def addLocalRange_def Let_def at_vec_def
          split: sum.splits)
  next
    case False
    with m have "al_global2local L g = None"
      by (simp add: fill_global2local_notin)
    with False show ?thesis
      by (simp add: nodePosition_def nodeCount_def addLocalRange_def)
  qed
qed

theorem accessors_out_of_range_witness:
  "nodePosition (projr (addLocalRanges (newArrayLayout [3, 5] [0, 2, 6]) [(3, 4)])) 4 = Inl OutOfRange \<and>
   nodeCount (projr (addLocalRanges (newArrayLayout [3, 5] [0, 2, 6]) [(3, 4)])) 4 = Inl OutOfRange \<and>
   addLocalRange (projr (addLocalRanges (newArrayLayout [3, 5] [0, 2, 6]) [(3, 4)])) 4 6 = Inl OutOfRange \<and>
   nodePosition (projr (addLocalRanges (newArrayLayout [3, 5] [0, 2, 6]) [(3, 4)])) 5 = Inr 2"
proof -
  let ?R = "addLocalRanges (newArrayLayout [3, 5] [0, 2, 6]) [(3, 4)]"
  have "\<not> isl ?R" by code_simp
  then have h: "?R = Inr (projr ?R)" by simp
  have p: "nodePosition (projr ?R) 5 = Inr 2" by code_simp
  from accessors_out_of_range [OF h, of 4 6] p show ?thesis by simp
qed

lemma addLocalNodes_eq: "addLocalNodes rs nodeList = nodeList @ localNodeIndices rs"
  by (induction rs arbitrary: nodeList) (auto simp: localNodeIndices_def)

lemma extractCounts_Inr:
  "extractCounts gc gs = Inr cs \<Longrightarrow>
     cs = map (\<lambda>g. ucast (gc ! nat g)) gs \<and> (\<forall>g\<in>set gs. 0 \<le> g \<and> g < int (length gc))"
  by (induction gs arbitrary: cs) (auto simp: at_vec_def split: sum.splits if_splits)

lemma length_scanOffsets: "length (scanOffsets offset cs) = Suc (length cs)"
  by (induction cs arbitrary: offset) auto

lemma scanOffsets_nth:
  "i \<le> length cs \<Longrightarrow> scanOffsets offset cs ! i = offset + sum_list (take i cs)"
proof (induction cs arbitrary: offset i)
  case Nil
  then show ?case by simp
next
  case (Cons c cs)
  then show ?case by (cases i) (auto simp: add.assoc)
qed

lemma computeLayout_Inr:
  assumes "computeLayout localNodes haloNodes gc = Inr L"
  shows "al_nodeList L = sort (haloNodes @ localNodeIndices localNodes) \<and>
         al_global2local L = fill_global2local (al_nodeList L) 0 Map.empty \<and>
         al_offsets L = scanOffsets 0 (map (\<lambda>g. ucast (gc ! nat g)) (al_nodeList L))"
proof -
  let ?nl = "sort (addLocalNodes localNodes haloNodes)"
  from assms obtain cs where cs: "extractCounts gc ?nl = Inr cs"
    and L: "addLocalRanges (newArrayLayout ?nl (scanOffsets 0 cs)) localNodes = Inr L"
    by (auto simp: computeLayout_def Let_def split: sum.splits)
  from addLocalRanges_frame [OF L] extractCounts_Inr [OF cs] show ?thesis
    by (simp add: newArrayLayout_def addLocalNodes_eq)
qed

text \<open>
  Claim C4, as amended. The node list of the layout returned by computeLayout is the halo
  node indices followed by the local node indices, sorted in ascending order with every
  occurrence kept. It is free of duplicates exactly when no index occurs twice in the
  inputs, and then it is the sorted list of the set of all the indices.
\<close>

theorem computeLayout_nodeList_sorted:
  assumes "computeLayout localNodes haloNodes globalNodeCounts = Inr L"
  shows "sorted (al_nodeList L) \<and>
         mset (al_nodeList L) = mset (haloNodes @ localNodeIndices localNodes) \<and>
         (distinct (al_nodeList L) \<longleftrightarrow> distinct (haloNodes @ localNodeIndices localNodes)) \<and>
         (distinct (haloNodes @ localNodeIndices localNodes) \<longrightarrow>
            al_nodeList L = sorted_list_of_set (set (haloNodes @ localNodeIndices localNodes)))"
proof -
  let ?xs = "haloNodes @ localNodeIndices localNodes"
  from computeLayout_Inr [OF assms] have nl: "al_nodeList L = sort ?xs" by simp
  have "distinct ?xs \<longrightarrow> sort ?xs = sorted_list_of_set (set ?xs)"
    by (simp add: sorted_list_of_set_sort_remdups distinct_remdups_id del: set_append)
  with nl show ?thesis by (simp del: set_append)
qed

theorem computeLayout_nodeList_sorted_witness:
  "let R = computeLayout [(2, 4)] [7, 1] [5, 3, 4, 6, 1, 1, 1, 9] in
     \<not> isl R \<and> sorted (al_nodeList (projr R)) \<and>
     mset (al_nodeList (projr R)) = mset ([7, 1] @ localNodeIndices [(2, 4)]) \<and>
     distinct (al_nodeList (projr R)) \<and>
     al_nodeList (projr R) = sorted_list_of_set (set ([7, 1] @ localNodeIndices [(2, 4)])) \<and>
     al_nodeList (projr R) = [1, 2, 3, 7]"
proof -
  let ?R = "computeLayout [(2, 4)] [7, 1] [5, 3, 4, 6, 1, 1, 1, 9]"
  have r: "\<not> isl ?R" by code_simp
  then have h: "?R = Inr (projr ?R)" by simp
  have d: "distinct ([7, 1] @ localNodeIndices [(2, 4)])" by code_simp
  have nl: "al_nodeList (projr ?R) = [1, 2, 3, 7]" by code_simp
  from computeLayout_nodeList_sorted [OF h] d
  have "sorted (al_nodeList (projr ?R)) \<and>
     mset (al_nodeList (projr ?R)) = mset ([7, 1] @ localNodeIndices [(2, 4)]) \<and>
     distinct (al_nodeList (projr ?R)) \<and>
     al_nodeList (projr ?R) = sorted_list_of_set (set ([7, 1] @ localNodeIndices [(2, 4)]))"
    by blast
  then show ?thesis unfolding Let_def using r nl by (intro conjI) (elim conjE, assumption)+
qed

text \<open>
  Claim C4 as stated fails: nothing is removed from the node list. With the local range
  [0, 2) and the halo node 1, node 1 is listed twice, where the deduplicated list is 0, 1.
\<close>

theorem computeLayout_duplicate_counterexample:
  "\<not> isl (computeLayout [(0, 2)] [1] [5, 3]) \<and>
   al_nodeList (projr (computeLayout [(0, 2)] [1] [5, 3])) = [0, 1, 1] \<and>
   \<not> distinct (al_nodeList (projr (computeLayout [(0, 2)] [1] [5, 3]))) \<and>
   al_nodeList (projr (computeLayout [(0, 2)] [1] [5, 3])) \<noteq>
     sort (remdups (localNodeIndices [(0, 2)] @ [1]))"
  by code_simp

lemma nodeCount_listed:
  assumes "computeLayout localNodes haloNodes gc = Inr L" and "g \<in> set (al_nodeList L)"
  shows "nodeCount L g = Inr (ucast (gc ! nat g))"
proof -
  let ?nl = "al_nodeList L"
  let ?cs = "map (\<lambda>g. ucast (gc ! nat g) :: 32 word) ?nl"
  from computeLayout_Inr [OF assms(1)]
  have m: "al_global2local L = fill_global2local ?nl 0 Map.empty"
    and offs: "al_offsets L = scanOffsets 0 ?cs" by simp_all
  from fill_global2local_in [OF assms(2), of 0 Map.empty] m
  obtain k where k: "k < length ?nl" "?nl ! k = g" "al_global2local L g = Some (int k)"
    by auto
  have hi: "scanOffsets 0 ?cs ! Suc k = sum_list (take (Suc k) ?cs)"
    using k(1) by (subst scanOffsets_nth) simp_all
  have lo: "scanOffsets 0 ?cs ! k = sum_list (take k ?cs)"
    using k(1) by (subst scanOffsets_nth) simp_all
  have "take (Suc k) ?cs = take k ?cs @ [?cs ! k]"
    using k(1) by (simp add: take_Suc_conv_app_nth)
  with hi lo have "scanOffsets 0 ?cs ! Suc k - scanOffsets 0 ?cs ! k = ?cs ! k"
    by simp
  with k offs show ?thesis
    by (simp add: nodeCount_def at_vec_def length_scanOffsets nat_add_distrib)
qed

lemma nodePosition_nth:
  assumes "computeLayout localNodes haloNodes gc = Inr L" and "distinct (al_nodeList L)"
    and "k < length (al_nodeList L)"
  shows "nodePosition L (al_nodeList L ! k) =
           Inr (sum_list (take k (map (\<lambda>g. ucast (gc ! nat g)) (al_nodeList L))))"
proof -
  let ?nl = "al_nodeList L"
  let ?cs = "map (\<lambda>g. ucast (gc ! nat g) :: 32 word) ?nl"
  from computeLayout_Inr [OF assms(1)]
  have m: "al_global2local L = fill_global2local ?nl 0 Map.empty"
    and offs: "al_offsets L = scanOffsets 0 ?cs" by simp_all
  from fill_global2local_distinct [OF assms(2,3), of 0 Map.empty] m
  have g: "al_global2local L (?nl ! k) = Some (int k)" by simp
  have "scanOffsets 0 ?cs ! k = sum_list (take k ?cs)"
    using assms(3) by (subst scanOffsets_nth) simp_all
  with g offs assms(3) show ?thesis
    by (simp add: nodePosition_def at_vec_def length_scanOffsets)
qed

text \<open>
  Claim C5, as amended. In a layout returned by computeLayout every listed node has the
  count of the global count array (kept to 32 bits), \<open>totalSize\<close> is the sum of
  \<open>nodeCount\<close> over the node list, and, when the node list has no duplicate, the node
  after \<open>g\<close> in the list is at \<open>nodePosition g + nodeCount g\<close>. Sums are those of the
  32-bit \<open>int\<close>.
\<close>

theorem computeLayout_offsets_scan:
  assumes "computeLayout localNodes haloNodes globalNodeCounts = Inr L"
  shows "(\<forall>g\<in>set (al_nodeList L). nodeCount L g = Inr (ucast (globalNodeCounts ! nat g))) \<and>
         totalSize L = Inr (sum_list (map (\<lambda>g. projr (nodeCount L g)) (al_nodeList L))) \<and>
         (distinct (al_nodeList L) \<longrightarrow>
            (\<forall>i. Suc i < length (al_nodeList L) \<longrightarrow>
               nodePosition L (al_nodeList L ! Suc i) =
                 Inr (projr (nodePosition L (al_nodeList L ! i)) +
                      projr (nodeCount L (al_nodeList L ! i)))))"
proof -
  let ?nl = "al_nodeList L"
  let ?cs = "map (\<lambda>g. ucast (globalNodeCounts ! nat g) :: 32 word) ?nl"
  have cnt: "\<forall>g\<in>set ?nl. nodeCount L g = Inr (ucast (globalNodeCounts ! nat g))"
    using nodeCount_listed [OF assms] by blast
  from computeLayout_Inr [OF assms] have offs: "al_offsets L = scanOffsets 0 ?cs" by simp
  have "scanOffsets 0 ?cs ! length ?nl = sum_list (take (length ?nl) ?cs)"
    by (subst scanOffsets_nth) simp_all
  with offs have "totalSize L = Inr (sum_list ?cs)"
    by (simp add: totalSize_def at_vec_def length_scanOffsets)
  moreover have "?cs = map (\<lambda>g. projr (nodeCount L g)) ?nl"
    using cnt by simp
  ultimately have tot: "totalSize L = Inr (sum_list (map (\<lambda>g. projr (nodeCount L g)) ?nl))"
    by simp
  have adj: "nodePosition L (?nl ! Suc i) =
      Inr (projr (nodePosition L (?nl ! i)) + projr (nodeCount L (?nl ! i)))"
    if d: "distinct ?nl" and i: "Suc i < length ?nl" for i
  proof -
    from i have i': "i < length ?nl" by simp
    have "take (Suc i) ?cs = take i ?cs @ [?cs ! i]"
      using i' by (simp add: take_Suc_conv_app_nth)
    then have "sum_list (take (Suc i) ?cs) = sum_list (take i ?cs) + ?cs ! i"
      by simp
    moreover have "nodeCount L (?nl ! i) = Inr (?cs ! i)"
      using cnt i' by simp
    ultimately show ?thesis
      using nodePosition_nth [OF assms d i] nodePosition_nth [OF assms d i'] by simp
  qed
  from cnt tot adj show ?thesis by blast
qed

theorem computeLayout_offsets_scan_witness:
  "let R = computeLayout [(2, 4)] [7, 1] [5, 3, 4, 6, 1, 1, 1, 9] in
     \<not> isl R \<and> al_nodeList (projr R) = [1, 2, 3, 7] \<and>
     nodeCount (projr R) 3 = Inr 6 \<and>
     totalSize (projr R) = Inr (sum_list (map (\<lambda>g. projr (nodeCount (projr R) g)) [1, 2, 3, 7])) \<and>
     totalSize (projr R) = Inr 22 \<and>
     nodePosition (projr R) 3 =
       Inr (projr (nodePosition (projr R) 2) + projr (nodeCount (projr R) 2))"
proof -
  let ?R = "computeLayout [(2, 4)] [7, 1] [5, 3, 4, 6, 1, 1, 1, 9]"
  have r: "\<not> isl ?R" by code_simp
  then have h: "?R = Inr (projr ?R)" by simp
  have nl: "al_nodeList (projr ?R) = [1, 2, 3, 7]" by code_simp
  have tot: "totalSize (projr ?R) = Inr 22" by code_simp
  have cnt: "nodeCount (projr ?R) 3 = Inr 6" by code_simp
  have d: "distinct (al_nodeList (projr ?R))" by (simp add: nl)
  note t = computeLayout_offsets_scan [OF h]
  from t have "totalSize (projr ?R) =
      Inr (sum_list (map (\<lambda>g. projr (nodeCount (projr ?R) g)) (al_nodeList (projr ?R))))"
    by blast
  then have sum: "totalSize (projr ?R) =
      Inr (sum_list (map (\<lambda>g. projr (nodeCount (projr ?R) g)) [1, 2, 3, 7]))"
    by (simp only: nl)
  from t d have "\<forall>i. Suc i < length (al_nodeList (projr ?R)) \<longrightarrow>
      nodePosition (projr ?R) (al_nodeList (projr ?R) ! Suc i) =
        Inr (projr (nodePosition (projr ?R) (al_nodeList (projr ?R) ! i)) +
             projr (nodeCount (projr ?R) (al_nodeList (projr ?R) ! i)))"
    by blast
  then have "Suc 1 < length (al_nodeList (projr ?R)) \<longrightarrow>
      nodePosition (projr ?R) (al_nodeList (projr ?R) ! Suc 1) =
        Inr (projr (nodePosition (projr ?R) (al_nodeList (projr ?R) ! 1)) +
             projr (nodeCount (projr ?R) (al_nodeList (projr ?R) ! 1)))"
    by (rule spec)
  then have adj: "nodePosition (projr ?R) 3 =
      Inr (projr (nodePosition (projr ?R) 2) + projr (nodeCount (projr ?R) 2))"
    by (simp add: nl)
  show ?thesis unfolding Let_def using r nl cnt sum tot adj by (intro conjI)
qed

text \<open>
  Claim C5 as stated fails when an index is both a halo node and a local node: with the
  local range [0, 2), the halo node 1 and the counts 5 and 3, the node list is 0, 1, 1 and
  the offsets are 0, 5, 8, 11; the map sends node 1 to its last place, so node 1, which
  follows node 0 in the list, is at 8 and not at 0 + 5.
\<close>

theorem computeLayout_adjacent_counterexample:
  "\<not> isl (computeLayout [(0, 2)] [1] [5, 3]) \<and>
   al_nodeList (projr (computeLayout [(0, 2)] [1] [5, 3])) = [0, 1, 1] \<and>
   nodePosition (projr (computeLayout [(0, 2)] [1] [5, 3])) 0 = Inr 0 \<and>
   nodeCount (projr (computeLayout [(0, 2)] [1] [5, 3])) 0 = Inr 5 \<and>
   nodePosition (projr (computeLayout [(0, 2)] [1] [5, 3])) 1 = Inr 8 \<and>
   (8 :: 32 word) \<noteq> 0 + 5"
  by code_simp

section \<open>Counting particles for a peer's request\<close>

lemma lower_bound_nth:
  fixes xs :: "'a::linorder list"
  assumes "sorted_wrt (<) xs" and "k < length xs"
  shows "lower_bound xs (xs ! k) = k"
proof -
  have "takeWhile (\<lambda>x. x < xs ! k) xs = take k xs"
  proof (rule takeWhile_eq_take_P_nth)
    fix i assume "i < k" "i < length xs"
    with assms show "xs ! i < xs ! k" by (simp add: sorted_wrt_nth_less)
  next
    show "\<not> xs ! k < xs ! k" by simp
  qed
  with assms(2) show ?thesis by (simp add: lower_bound_def)
qed

lemma strict_sorted_nth_le:
  fixes xs :: "'a::linorder list"
  assumes "sorted_wrt (<) xs" and "i < length xs" and "j < length xs"
  shows "xs ! i \<le> xs ! j \<longleftrightarrow> i \<le> j"
proof
  assume le: "xs ! i \<le> xs ! j"
  show "i \<le> j"
  proof (rule ccontr)
    assume "\<not> i \<le> j"
    then have "j < i" by simp
    with assms have "xs ! j < xs ! i" by (simp add: sorted_wrt_nth_less)
    with le show False by simp
  qed
next
  assume "i \<le> j"
  show "xs ! i \<le> xs ! j"
  proof (cases "i = j")
    case True then show ?thesis by simp
  next
    case False
    with \<open>i \<le> j\<close> have "i < j" by simp
    with assms have "xs ! i < xs ! j" by (simp add: sorted_wrt_nth_less)
    then show ?thesis by simp
  qed
qed

lemma filter_upt_interval:
  "e \<le> n \<Longrightarrow> filter (\<lambda>j. s \<le> j \<and> j < e) [0..<n] = [s..<e]"
proof (induction n arbitrary: e)
  case 0
  then show ?case by simp
next
  case (Suc n)
  show ?case
  proof (cases "e \<le> n")
    case True
    with Suc.IH show ?thesis by simp
  next
    case False
    with Suc.prems have e: "e = Suc n" by simp
    have "filter (\<lambda>j. s \<le> j \<and> j < e) [0..<n] = filter (\<lambda>j. s \<le> j \<and> j < n) [0..<n]"
      by (rule filter_cong) (auto simp: e)
    also have "\<dots> = [s..<n]" by (rule Suc.IH) simp
    finally show ?thesis by (auto simp: e)
  qed
qed

lemma take_drop_map_nth:
  "e \<le> length xs \<Longrightarrow> take (e - s) (drop s xs) = map ((!) xs) [s..<e]"
  by (rule nth_equalityI) auto

lemma leavesInSpan_interval:
  assumes "sorted_wrt (<) leaves" and "s \<le> e" and "e < length leaves"
  shows "leavesInSpan leaves (leaves ! s) (leaves ! e) = [s..<e]"
proof -
  have "filter (\<lambda>j. leaves ! s \<le> leaves ! j \<and> leaves ! Suc j \<le> leaves ! e) [0..<length leaves - 1]
      = filter (\<lambda>j. s \<le> j \<and> j < e) [0..<length leaves - 1]"
  proof (rule filter_cong)
    fix j assume "j \<in> set [0..<length leaves - 1]"
    then have j: "j < length leaves" "Suc j < length leaves" by auto
    from assms have s: "s < length leaves" by simp
    show "(leaves ! s \<le> leaves ! j \<and> leaves ! Suc j \<le> leaves ! e) = (s \<le> j \<and> j < e)"
      using strict_sorted_nth_le [OF assms(1) s j(1)]
        strict_sorted_nth_le [OF assms(1) j(2) assms(3)] by auto
  qed simp
  also have "\<dots> = [s..<e]"
    using assms(3) by (intro filter_upt_interval) simp
  finally show ?thesis by (simp add: leavesInSpan_def)
qed

lemma accumulate_span:
  assumes "sorted_wrt (<) leaves" and "length leaves = Suc (length counts)"
    and "startKey \<in> set leaves" and "endKey \<in> set leaves" and "startKey \<le> endKey"
  shows "accumulate counts (lower_bound leaves startKey) (lower_bound leaves endKey) =
           Inr (sum_list (map ((!) counts) (leavesInSpan leaves startKey endKey)))"
proof -
  from assms(3) obtain s where s: "s < length leaves" "leaves ! s = startKey"
    by (auto simp: in_set_conv_nth)
  from assms(4) obtain e where e: "e < length leaves" "leaves ! e = endKey"
    by (auto simp: in_set_conv_nth)
  from assms(5) s e have se: "s \<le> e"
    using strict_sorted_nth_le [OF assms(1) s(1) e(1)] by simp
  have ls: "lower_bound leaves startKey = s"
    using lower_bound_nth [OF assms(1) s(1)] s(2) by simp
  have le: "lower_bound leaves endKey = e"
    using lower_bound_nth [OF assms(1) e(1)] e(2) by simp
  have span: "leavesInSpan leaves startKey endKey = [s..<e]"
    using leavesInSpan_interval [OF assms(1) se e(1)] s(2) e(2) by simp
  from e(1) assms(2) have ec: "e \<le> length counts" by simp
  show ?thesis
    by (simp add: accumulate_def ls le span se ec take_drop_map_nth)
qed


lemma countFocusLoop_result:
  assumes "0 \<le> i"
    and "\<forall>k. i \<le> k \<and> k < numNodes \<longrightarrow> countFocusNode leaves counts requestLeaves k = Inr (f k)"
    and "numNodes \<le> int (length rc)"
  shows "\<exists>rc'. countFocusLoop i numNodes leaves counts requestLeaves rc = Inr rc' \<and>
           length rc' = length rc \<and>
           (\<forall>k<length rc. rc' ! k = (if i \<le> int k \<and> int k < numNodes then f (int k) else rc ! k))"
  using assms
proof (induction i numNodes leaves counts requestLeaves rc rule: countFocusLoop.induct)
  case (1 i numNodes leaves counts requestLeaves requestCounts)
  show ?case
  proof (cases "i < numNodes")
    case False
    then show ?thesis by (subst countFocusLoop.simps) auto
  next
    case True
    with "1.prems" have node: "countFocusNode leaves counts requestLeaves i = Inr (f i)"
      and inb: "0 \<le> i \<and> i < int (length requestCounts)" by auto
    let ?rc = "requestCounts[nat i := f i]"
    have "\<exists>rc'. countFocusLoop (i + 1) numNodes leaves counts requestLeaves ?rc = Inr rc' \<and>
           length rc' = length ?rc \<and>
           (\<forall>k<length ?rc. rc' ! k = (if i + 1 \<le> int k \<and> int k < numNodes then f (int k) else ?rc ! k))"
      using "1.prems" by (intro "1.IH" [OF True node inb]) auto
    then obtain rc' where rc':
      "countFocusLoop (i + 1) numNodes leaves counts requestLeaves ?rc = Inr rc'"
      "length rc' = length requestCounts"
      "\<forall>k<length requestCounts. rc' ! k =
          (if i + 1 \<le> int k \<and> int k < numNodes then f (int k) else ?rc ! k)"
      by auto
    have "countFocusLoop i numNodes leaves counts requestLeaves requestCounts = Inr rc'"
      using True node inb rc'(1) by (subst countFocusLoop.simps) simp
    moreover have "\<forall>k<length requestCounts. rc' ! k =
          (if i \<le> int k \<and> int k < numNodes then f (int k) else requestCounts ! k)"
    proof (intro allI impI)
      fix k assume k: "k < length requestCounts"
      show "rc' ! k = (if i \<le> int k \<and> int k < numNodes then f (int k) else requestCounts ! k)"
      proof (cases "int k = i")
        case True
        with rc'(3) k \<open>i < numNodes\<close> show ?thesis by auto
      next
        case False
        then have "nat i \<noteq> k" using inb by auto
        with rc'(3) k False show ?thesis by auto
      qed
    qed
    ultimately show ?thesis using rc'(2) by blast
  qed
qed

lemma countFocusNode_span:
  fixes leaves :: "'a::len word list"
  assumes "sorted_wrt (<) leaves" and "length leaves = Suc (length counts)"
    and "numNodes < int (length requestLeaves)"
    and "set (take (Suc (nat numNodes)) requestLeaves) \<subseteq> set leaves"
    and "sorted (take (Suc (nat numNodes)) requestLeaves)"
    and "0 \<le> k" and "k < numNodes"
  shows "countFocusNode leaves counts requestLeaves k =
           Inr (sum_list (map ((!) counts)
                  (leavesInSpan leaves (requestLeaves ! nat k) (requestLeaves ! Suc (nat k)))))"
proof -
  let ?req = "take (Suc (nat numNodes)) requestLeaves"
  from assms(3,6,7) have len: "length ?req = Suc (nat numNodes)" by simp
  from assms(6,7) have k1: "nat k < length ?req" and k2: "Suc (nat k) < length ?req"
    unfolding len by simp_all
  have n1: "?req ! nat k = requestLeaves ! nat k" and n2: "?req ! Suc (nat k) = requestLeaves ! Suc (nat k)"
    using assms(6,7) by simp_all
  have "?req ! nat k \<in> set ?req" and "?req ! Suc (nat k) \<in> set ?req"
    using k1 k2 by (simp_all only: nth_mem)
  with assms(4) n1 n2 have mem: "requestLeaves ! nat k \<in> set leaves"
      "requestLeaves ! Suc (nat k) \<in> set leaves" by auto
  have "?req ! nat k \<le> ?req ! Suc (nat k)"
    using assms(5) k2 by (intro sorted_nth_mono) simp_all
  with n1 n2 have le: "requestLeaves ! nat k \<le> requestLeaves ! Suc (nat k)" by simp
  have a1: "at_vec requestLeaves k = Inr (requestLeaves ! nat k)"
    using assms(3,6,7) by (simp add: at_vec_def)
  have a2: "at_vec requestLeaves (k + 1) = Inr (requestLeaves ! Suc (nat k))"
    using assms(3,6,7) by (simp add: at_vec_def nat_add_distrib)
  show ?thesis
    unfolding countFocusNode_def a1 a2
    using accumulate_span [OF assms(1,2) mem le] by simp
qed

text \<open>
  Claim C6. Let the local tree be strictly increasing with one count per leaf, and let the
  request be an ascending sequence of \<open>numNodes + 1\<close> keys that all are leaf boundaries of
  the local tree. Then countFocusParticles returns, and \<open>requestCounts ! i\<close> is the sum (in
  \<open>unsigned\<close>) of the counts of the local leaves contained in the requested node
  [\<open>requestLeaves ! i\<close>, \<open>requestLeaves ! (i + 1)\<close>), for every \<open>i\<close> below \<open>numNodes\<close>; the
  other entries of \<open>requestCounts\<close> keep their values.
\<close>

theorem countFocusParticles_counts:
  fixes leaves :: "'a::len word list"
  assumes "sorted_wrt (<) leaves" and "length leaves = Suc (length counts)"
    and "numNodes < int (length requestLeaves)"
    and "set (take (Suc (nat numNodes)) requestLeaves) \<subseteq> set leaves"
    and "sorted (take (Suc (nat numNodes)) requestLeaves)"
    and "numNodes \<le> int (length requestCounts)"
  shows "\<exists>rc. countFocusParticles numNodes leaves counts requestLeaves requestCounts = Inr rc \<and>
           length rc = length requestCounts \<and>
           (\<forall>i < nat numNodes. rc ! i =
              sum_list (map ((!) counts)
                (leavesInSpan leaves (requestLeaves ! i) (requestLeaves ! Suc i)))) \<and>
           (\<forall>i. nat numNodes \<le> i \<and> i < length requestCounts \<longrightarrow> rc ! i = requestCounts ! i)"
proof -
  let ?f = "\<lambda>k. sum_list (map ((!) counts)
                (leavesInSpan leaves (requestLeaves ! nat k) (requestLeaves ! Suc (nat k))))"
  have nodes: "\<forall>k. 0 \<le> k \<and> k < numNodes \<longrightarrow>
      countFocusNode leaves counts requestLeaves k = Inr (?f k)"
    using countFocusNode_span [OF assms(1-5)] by blast
  from countFocusLoop_result [OF _ nodes assms(6)]
  obtain rc where rc: "countFocusLoop 0 numNodes leaves counts requestLeaves requestCounts = Inr rc"
    "length rc = length requestCounts"
    "\<forall>k<length requestCounts. rc ! k =
        (if 0 \<le> int k \<and> int k < numNodes then ?f (int k) else requestCounts ! k)"
    by auto
  have "\<forall>i < nat numNodes. rc ! i = ?f (int i)"
    using rc(3) assms(6) by auto
  moreover have "\<forall>i. nat numNodes \<le> i \<and> i < length requestCounts \<longrightarrow> rc ! i = requestCounts ! i"
    using rc(3) by auto
  ultimately show ?thesis using rc(1,2) by (auto simp: countFocusParticles_def)
qed

theorem countFocusParticles_counts_witness:
  "countFocusParticles 2 [0, 8, 16, 24, 64 :: 32 word] [1, 2, 3, 4] [8, 24, 64] [0, 0, 7] =
     Inr [5, 4, 7] \<and>
   leavesInSpan [0, 8, 16, 24, 64 :: 32 word] 8 24 = [1, 2] \<and>
   leavesInSpan [0, 8, 16, 24, 64 :: 32 word] 24 64 = [3]"
proof -
  have h1: "sorted_wrt (<) [0, 8, 16, 24, 64 :: 32 word]" by simp
  have h2: "length [0, 8, 16, 24, 64 :: 32 word] = Suc (length [1, 2, 3, 4 :: 32 word])" by simp
  have h3: "(2::int) < int (length [8, 24, 64 :: 32 word])" by simp
  have h4: "set (take (Suc (nat 2)) [8, 24, 64 :: 32 word]) \<subseteq> set [0, 8, 16, 24, 64]" by simp
  have h5: "sorted (take (Suc (nat 2)) [8, 24, 64 :: 32 word])" by simp
  have h6: "(2::int) \<le> int (length [0, 0, 7 :: 32 word])" by simp
  from countFocusParticles_counts [OF h1 h2 h3 h4 h5 h6]
  obtain rc where "countFocusParticles 2 [0, 8, 16, 24, 64 :: 32 word] [1, 2, 3, 4] [8, 24, 64] [0, 0, 7] = Inr rc"
    by blast
  moreover have "countFocusParticles 2 [0, 8, 16, 24, 64 :: 32 word] [1, 2, 3, 4] [8, 24, 64] [0, 0, 7] =
     Inr [5, 4, 7]" by code_simp
  moreover have "leavesInSpan [0, 8, 16, 24, 64 :: 32 word] 8 24 = [1, 2]" by code_simp
  moreover have "leavesInSpan [0, 8, 16, 24, 64 :: 32 word] 24 64 = [3]" by code_simp
  ultimately show ?thesis by simp
qed

section \<open>Rebalancing decisions\<close>

lemma rebalanceDecision_test:
  "rebalanceDecision 10 testTree [1, 1, 1, 0, 0, 0, 0, 0, 2, 3, 4, 5, 6, 7, 8] 4 =
     ([1, 0, 0, 0, 0, 0, 0, 0, 1, 1, 1, 8, 8, 8, 8], False)"
  by code_simp

lemma rebalanceDecisionSingleRoot_test:
  "rebalanceDecision 10 [0, nodeRange 10 0] [1] 4 = ([1], True)"
  by code_simp

lemma testTree_invariants: "checkOctreeInvariants 10 testTree"
  by code_simp

lemma rebalanceTree_test:
  "rebalanceTree testTree [1, 0, 0, 0, 0, 0, 0, 0, 1, 8, 1, 1, 1, 1, 8, 0] =
     [0, 8 ^ 9] @ map (\<lambda>k. 2 * 8 ^ 9 + k * 8 ^ 8) [0..<8] @ map (\<lambda>k. k * 8 ^ 9) [3..<7] @
     map (\<lambda>k. 7 * 8 ^ 9 + k * 8 ^ 8) [0..<8] @ [8 ^ 10]"
  by code_simp

lemma computeSpanningTree_test:
  "computeSpanningTree 10 [0, nodeRange 10 0] = [0, nodeRange 10 0]"
  "length (computeSpanningTree 10 [0, 8 ^ 9, nodeRange 10 0]) = 9"
  "checkOctreeInvariants 10 (computeSpanningTree 10 [0, 8 ^ 9, nodeRange 10 0])"
  by code_simp+

lemma nodeOp_keep:
  assumes "bucketSize < counts ! i \<longrightarrow> treeLevel L (leafRange tree i) = L"
    and "\<forall>f. siblingGroup tree i = Some f \<longrightarrow> bucketSize < groupCount counts f"
  shows "nodeOp L tree counts bucketSize i = 1"
  using assms by (auto simp: nodeOp_def split: option.splits)

lemma nodeOp_no_split_at_maxLevel:
  "treeLevel L (leafRange tree i) = L \<Longrightarrow> nodeOp L tree counts bucketSize i \<noteq> 8"
  by (simp add: nodeOp_def)

section \<open>The invariants of a cornerstone tree\<close>

lemma isPow8_iff: "isPow8 r \<longleftrightarrow> (\<exists>k. r = 8 ^ k)"
proof
  show "isPow8 r \<Longrightarrow> \<exists>k. r = 8 ^ k"
  proof (induction r rule: isPow8.induct)
    case (1 r)
    show ?case
    proof (cases "r = 1")
      case True
      then have "r = 8 ^ 0" by simp
      then show ?thesis by blast
    next
      case False
      with "1.prems" have r: "8 \<le> r" "r mod 8 = 0" "isPow8 (r div 8)"
        by (subst (asm) isPow8.simps, simp split: if_splits)+
      with "1.IH" False obtain k where "r div 8 = 8 ^ k" by auto
      with r(2) have "r = 8 ^ Suc k" by auto
      then show ?thesis by blast
    qed
  qed
next
  assume "\<exists>k. r = 8 ^ k"
  then obtain k where "r = 8 ^ k" by blast
  then show "isPow8 r"
  proof (induction k arbitrary: r)
    case 0
    then show ?case by (simp add: isPow8.simps)
  next
    case (Suc k)
    have "isPow8 (8 ^ k)" by (rule Suc.IH) simp
    moreover have "(8::nat) \<le> 8 * 8 ^ k" by simp
    moreover have "(8::nat) * 8 ^ k \<noteq> 1" by presburger
    ultimately show ?case by (subst isPow8.simps) (simp add: Suc.prems)
  qed
qed

lemma isPow8_pos: "isPow8 r \<Longrightarrow> 0 < r"
  by (auto simp: isPow8_iff)

lemma isPow8_times8: "isPow8 r \<Longrightarrow> isPow8 (8 * r)"
  unfolding isPow8_iff by (metis power_Suc)

lemma isPow8_div8: "isPow8 r \<Longrightarrow> 8 \<le> r \<Longrightarrow> isPow8 (r div 8) \<and> r = 8 * (r div 8)"
  by (subst (asm) isPow8.simps) (auto split: if_splits)

lemma treeLevel_less: "treeLevel L r < L \<Longrightarrow> 8 \<le> r"
  by (rule ccontr) (simp add: treeLevel_def log8.simps)

lemma invariants_successively:
  "checkOctreeInvariants L tree \<longleftrightarrow>
     tree \<noteq> [] \<and> hd tree = 0 \<and> last tree = nodeRange L 0 \<and> successively isNode tree"
proof (cases "tree = []")
  case True
  then show ?thesis by (simp add: checkOctreeInvariants_def)
next
  case False
  then have hd: "tree ! 0 = hd tree" and last: "tree ! nNodes tree = last tree"
    by (simp_all add: hd_conv_nth last_conv_nth nNodes_def)
  have "sorted_wrt (<) tree \<and>
        list_all (\<lambda>i. isPow8 (leafRange tree i) \<and> leafRange tree i dvd tree ! i) [0..<nNodes tree]
        \<longleftrightarrow> successively isNode tree" (is "?A \<longleftrightarrow> ?B")
  proof
    assume a: ?A
    show ?B unfolding successively_conv_nth
    proof (intro allI impI)
      fix i assume i: "Suc i < length tree"
      with a have "tree ! i < tree ! Suc i" by (simp add: sorted_wrt_nth_less)
      moreover from a i have "isPow8 (leafRange tree i) \<and> leafRange tree i dvd tree ! i"
        by (simp add: list_all_iff nNodes_def)
      ultimately show "isNode (tree ! i) (tree ! Suc i)"
        by (simp add: isNode_def leafRange_def)
    qed
  next
    assume b: ?B
    then have "successively (<) tree"
      by (rule successively_mono) (simp add: isNode_def)
    then have "sorted_wrt (<) tree"
      by (subst (asm) successively_conv_sorted_wrt) (auto simp: transp_def)
    moreover have "list_all (\<lambda>i. isPow8 (leafRange tree i) \<and> leafRange tree i dvd tree ! i) [0..<nNodes tree]"
      using b by (auto simp: list_all_iff successively_conv_nth nNodes_def isNode_def leafRange_def)
    ultimately show ?A by simp
  qed
  with False hd last show ?thesis by (simp add: checkOctreeInvariants_def)
qed

lemma valid_leaf:
  assumes "checkOctreeInvariants L tree" and "i < nNodes tree"
  shows "isPow8 (leafRange tree i)" and "leafRange tree i dvd tree ! i"
    and "tree ! Suc i = tree ! i + leafRange tree i"
proof -
  from assms have n: "isNode (tree ! i) (tree ! Suc i)"
    by (simp add: invariants_successively successively_conv_nth nNodes_def)
  then show "isPow8 (leafRange tree i)" "leafRange tree i dvd tree ! i"
    "tree ! Suc i = tree ! i + leafRange tree i"
    by (simp_all add: isNode_def leafRange_def)
qed

lemma siblingIndex_less: "siblingIndex tree i < 8"
  by (simp add: siblingIndex_def)

lemma siblingGroup_SomeD:
  assumes "siblingGroup tree i = Some f"
  shows "f = i - siblingIndex tree i" and "siblingIndex tree i \<le> i" and "f + 8 \<le> nNodes tree"
    and "\<forall>k<8. leafRange tree (f + k) = leafRange tree i" and "f \<le> i" and "i < f + 8"
proof -
  from assms show f: "f = i - siblingIndex tree i" and s: "siblingIndex tree i \<le> i"
    and "f + 8 \<le> nNodes tree"
    by (auto simp: siblingGroup_def Let_def split: if_splits)
  from assms have "list_all (\<lambda>k. leafRange tree (f + k) = leafRange tree i) [0..<8]"
    by (auto simp: siblingGroup_def Let_def split: if_splits)
  then show "\<forall>k<8. leafRange tree (f + k) = leafRange tree i"
    by (simp add: list_all_iff)
  from f show "f \<le> i" by simp
  from f s siblingIndex_less [of tree i] show "i < f + 8" by linarith
qed

lemma group_keys:
  assumes "\<forall>k<8. leafRange tree (f + k) = r" and "0 < r" and "k \<le> 8"
  shows "tree ! (f + k) = tree ! f + k * r"
  using assms(3)
proof (induction k)
  case 0
  then show ?case by simp
next
  case (Suc k)
  then have "tree ! (f + k) = tree ! f + k * r" by simp
  moreover from Suc.prems assms(1) have "leafRange tree (f + k) = r" by simp
  with assms(2) have "tree ! Suc (f + k) = tree ! (f + k) + r"
    by (simp add: leafRange_def)
  ultimately show ?case by simp
qed

lemma mod8_cancel:
  fixes q s :: nat
  assumes "s = (q + s) mod 8"
  shows "8 dvd q"
proof -
  from assms have "s < 8" by (metis mod_less_divisor zero_less_numeral)
  with assms have "(q + s) mod 8 = s mod 8" by simp
  then have "8 dvd (q + s) - s" by (subst (asm) mod_eq_dvd_iff_nat) simp_all
  then show ?thesis by simp
qed

lemma group_aligned:
  assumes "checkOctreeInvariants L tree" and "i < nNodes tree"
    and "siblingGroup tree i = Some f"
  shows "8 * leafRange tree i dvd tree ! f" and "siblingIndex tree i = i - f"
proof -
  let ?r = "leafRange tree i"
  let ?s = "siblingIndex tree i"
  note g = siblingGroup_SomeD [OF assms(3)]
  from valid_leaf(1) [OF assms(1,2)] have r: "0 < ?r" by (rule isPow8_pos)
  from g(1,2) have i: "i = f + ?s" by simp
  from g(1,2) show s: "?s = i - f" by simp
  from siblingIndex_less [of tree i] have s8: "?s \<le> 8" by simp
  have ki: "tree ! i = tree ! f + ?s * ?r"
    using group_keys [OF g(4) r s8] i by simp
  from g(4) [rule_format, of 0] have rf: "leafRange tree f = ?r" by simp
  from g(3) have fN: "f < nNodes tree" by simp
  have "leafRange tree f dvd tree ! f" by (rule valid_leaf(2) [OF assms(1) fN])
  with rf have "?r dvd tree ! f" by simp
  then obtain q where q: "tree ! f = ?r * q" by (auto simp: dvd_def)
  with ki have "tree ! i = ?r * (q + ?s)" by (simp add: algebra_simps)
  with r have "tree ! i div ?r = q + ?s" by simp
  then have "?s = (q + ?s) mod 8" by (simp add: siblingIndex_def)
  then have "8 dvd q" by (rule mod8_cancel)
  then show "8 * ?r dvd tree ! f" unfolding q by (simp add: mult.commute)
qed

lemma group_member:
  assumes "checkOctreeInvariants L tree" and "i < nNodes tree"
    and "siblingGroup tree i = Some f" and "f \<le> j" and "j < f + 8"
  shows "siblingGroup tree j = Some f"
proof -
  let ?r = "leafRange tree i"
  note g = siblingGroup_SomeD [OF assms(3)]
  from valid_leaf(1) [OF assms(1,2)] have r: "0 < ?r" by (rule isPow8_pos)
  define k where "k = j - f"
  with assms(4,5) have k: "j = f + k" "k < 8" by simp_all
  with g(4) have rj: "leafRange tree j = ?r" by simp
  from k have "k \<le> 8" by simp
  from group_keys [OF g(4) r this] k have kj: "tree ! j = tree ! f + k * ?r" by simp
  from group_aligned(1) [OF assms(1-3)] obtain q where q: "tree ! f = 8 * ?r * q"
    by (auto simp: dvd_def)
  with kj have "tree ! j = ?r * (8 * q + k)" by (simp add: algebra_simps)
  with r have "tree ! j div ?r = 8 * q + k" by simp
  with k(2) have sj: "siblingIndex tree j = k" by (simp add: siblingIndex_def rj)
  with k have "j - siblingIndex tree j = f" "siblingIndex tree j \<le> j" by simp_all
  with g(3,4) rj show ?thesis
    by (simp add: siblingGroup_def Let_def list_all_iff)
qed

lemma count_le_groupCount: "f \<le> i \<Longrightarrow> i < f + 8 \<Longrightarrow> counts ! i \<le> groupCount counts f"
  unfolding groupCount_def by (rule member_le_sum_list) auto

lemma nodeOp_eq_0:
  "nodeOp L tree counts bucketSize i = 0 \<longleftrightarrow>
     (\<exists>f. siblingGroup tree i = Some f \<and> f < i \<and> groupCount counts f \<le> bucketSize)"
  by (auto simp: nodeOp_def split: option.splits)

lemma nodeOp_cases:
  "nodeOp L tree counts bucketSize i = 0 \<or> nodeOp L tree counts bucketSize i = 1 \<or>
   (nodeOp L tree counts bucketSize i = 8 \<and> bucketSize < counts ! i \<and>
    treeLevel L (leafRange tree i) < L)"
  by (simp add: nodeOp_def)

lemma merged_group:
  assumes "checkOctreeInvariants L tree" and "i < nNodes tree"
    and "siblingGroup tree i = Some f" and "groupCount counts f \<le> bucketSize"
  shows "nodeOp L tree counts bucketSize f = 1"
    and "\<forall>j. f < j \<and> j < f + 8 \<longrightarrow> nodeOp L tree counts bucketSize j = 0"
proof -
  have ff: "siblingGroup tree f = Some f"
    using group_member [OF assms(1-3), of f] by simp
  then have "nodeOp L tree counts bucketSize f \<noteq> 0" by (simp add: nodeOp_eq_0)
  moreover have "counts ! f \<le> bucketSize"
    using count_le_groupCount [of f f counts] assms(4) by simp
  ultimately show "nodeOp L tree counts bucketSize f = 1"
    using nodeOp_cases [of L tree counts bucketSize f] by auto
  show "\<forall>j. f < j \<and> j < f + 8 \<longrightarrow> nodeOp L tree counts bucketSize j = 0"
  proof (intro allI impI)
    fix j assume j: "f < j \<and> j < f + 8"
    then have "siblingGroup tree j = Some f"
      using group_member [OF assms(1-3), of j] by simp
    with j assms(4) show "nodeOp L tree counts bucketSize j = 0"
      by (simp add: nodeOp_eq_0)
  qed
qed

lemma keysFrom_end: "keysFrom L tree counts bucketSize (nNodes tree) = [tree ! nNodes tree]"
  by (simp add: keysFrom_def)

lemma keysFrom_step:
  "i < nNodes tree \<Longrightarrow>
     keysFrom L tree counts bucketSize i =
       newKeys L tree counts bucketSize i @ keysFrom L tree counts bucketSize (Suc i)"
  by (simp add: keysFrom_def upt_conv_Cons)

lemma keysFrom_skip:
  assumes "i + n \<le> nNodes tree"
    and "\<forall>j. i \<le> j \<and> j < i + n \<longrightarrow> newKeys L tree counts bucketSize j = []"
  shows "keysFrom L tree counts bucketSize i = keysFrom L tree counts bucketSize (i + n)"
  using assms
proof (induction n arbitrary: i)
  case 0
  then show ?case by simp
next
  case (Suc n)
  from Suc.prems have i: "i < nNodes tree" and e: "newKeys L tree counts bucketSize i = []"
    by simp_all
  have "keysFrom L tree counts bucketSize (Suc i) = keysFrom L tree counts bucketSize (Suc i + n)"
    using Suc.prems by (intro Suc.IH) auto
  with keysFrom_step [OF i] e show ?case by simp
qed

lemma keysFrom_nonempty: "keysFrom L tree counts bucketSize i \<noteq> []"
  by (simp add: keysFrom_def)

lemma children_chain:
  assumes "isPow8 r" and "r dvd a" and "successively isNode rest" and "rest \<noteq> []"
    and "hd rest = a + n * r"
  shows "successively isNode (map (\<lambda>k. a + k * r) [0..<n] @ rest)"
  using assms(3-5)
proof (induction n arbitrary: rest)
  case 0
  then show ?case by simp
next
  case (Suc n)
  have "isNode (a + n * r) (hd rest)"
    using assms(1,2) Suc.prems(3) by (simp add: isNode_def isPow8_pos)
  with Suc.prems have "successively isNode ((a + n * r) # rest)"
    by (simp add: successively_Cons)
  then have "successively isNode (map (\<lambda>k. a + k * r) [0..<n] @ ((a + n * r) # rest))"
    by (intro Suc.IH) simp_all
  then show ?case by simp
qed

lemma keysFrom_chain:
  assumes v: "checkOctreeInvariants L tree"
  shows "i \<le> nNodes tree \<Longrightarrow>
         i = nNodes tree \<or> nodeOp L tree counts bucketSize i \<noteq> 0 \<Longrightarrow>
         successively isNode (keysFrom L tree counts bucketSize i) \<and>
         hd (keysFrom L tree counts bucketSize i) = tree ! i"
proof (induction "nNodes tree - i" arbitrary: i rule: less_induct)
  case less
  let ?op = "nodeOp L tree counts bucketSize"
  let ?from = "keysFrom L tree counts bucketSize"
  show ?case
  proof (cases "i = nNodes tree")
    case True
    then show ?thesis by (simp add: keysFrom_end)
  next
    case False
    with less.prems have i: "i < nNodes tree" and op: "?op i \<noteq> 0" by simp_all
    let ?r = "leafRange tree i"
    note leaf = valid_leaf [OF v i]
    show ?thesis
    proof (cases "Suc i = nNodes tree \<or> ?op (Suc i) \<noteq> 0")
      case True
      have rest: "successively isNode (?from (Suc i)) \<and> hd (?from (Suc i)) = tree ! Suc i"
        using i True by (intro less.hyps) auto
      with leaf(3) have hd: "hd (?from (Suc i)) = tree ! i + ?r" by simp
      from nodeOp_cases [of L tree counts bucketSize i] op
      consider (keep) "?op i = 1"
        | (split) "?op i = 8" "treeLevel L ?r < L" by auto
      then show ?thesis
      proof cases
        case keep
        then have k: "?from i = tree ! i # ?from (Suc i)"
          using keysFrom_step [OF i] by (simp add: newKeys_def nodeKeys_def)
        have "isNode (tree ! i) (hd (?from (Suc i)))"
          unfolding hd using leaf(1,2) by (simp add: isNode_def isPow8_pos)
        with rest show ?thesis
          unfolding k by (simp add: successively_Cons)
      next
        case split
        from treeLevel_less [OF split(2)] have "8 \<le> ?r" .
        from isPow8_div8 [OF leaf(1) this]
        have p: "isPow8 (?r div 8)" and r: "?r = 8 * (?r div 8)" by simp_all
        from leaf(2) r have d: "?r div 8 dvd tree ! i"
          by (metis dvd_mult_right)
        from hd r have hd': "hd (?from (Suc i)) = tree ! i + 8 * (?r div 8)" by simp
        have k: "?from i = map (\<lambda>k. tree ! i + k * (?r div 8)) [0..<8] @ ?from (Suc i)"
          using keysFrom_step [OF i] split(1) by (simp add: newKeys_def nodeKeys_def)
        have "successively isNode (map (\<lambda>k. tree ! i + k * (?r div 8)) [0..<8] @ ?from (Suc i))"
          using rest hd' by (intro children_chain [OF p d]) (simp_all add: keysFrom_nonempty)
        moreover have "hd (map (\<lambda>k. tree ! i + k * (?r div 8)) [0..<8] @ ?from (Suc i)) = tree ! i"
          by (simp add: hd_append hd_map)
        ultimately show ?thesis unfolding k by simp
      qed
    next
      case False
      then have si: "Suc i < nNodes tree" and "?op (Suc i) = 0" using i by auto
      then obtain f where f: "siblingGroup tree (Suc i) = Some f" "f < Suc i"
        "groupCount counts f \<le> bucketSize"
        by (auto simp: nodeOp_eq_0)
      note g = siblingGroup_SomeD [OF f(1)]
      from f(2) g(6) have fi: "f \<le> i" "i < f + 8" by simp_all
      have gi: "siblingGroup tree i = Some f"
        by (rule group_member [OF v si f(1) fi])
      with op f(3) have "\<not> f < i" by (auto simp: nodeOp_eq_0)
      with fi have [simp]: "f = i" by simp
      let ?r1 = "leafRange tree (Suc i)"
      note leaf1 = valid_leaf [OF v si]
      from merged_group [OF v si f(1) f(3)]
      have keep: "?op i = 1" and gone: "\<forall>j. i < j \<and> j < i + 8 \<longrightarrow> ?op j = 0"
        by simp_all
      from g(3) have n8: "Suc i + 7 \<le> nNodes tree" by simp
      have "?from (Suc i) = ?from (Suc i + 7)"
        using gone by (intro keysFrom_skip [OF n8]) (auto simp: newKeys_def nodeKeys_def)
      moreover have "Suc i + 7 = i + 8" by simp
      ultimately have skip: "?from (Suc i) = ?from (i + 8)" by (simp only:)
      have next_ok: "i + 8 = nNodes tree \<or> ?op (i + 8) \<noteq> 0"
      proof (rule ccontr)
        assume "\<not> ?thesis"
        with g(3) have i8: "i + 8 < nNodes tree" and "?op (i + 8) = 0" by auto
        then obtain f' where f': "siblingGroup tree (i + 8) = Some f'" "f' < i + 8"
          by (auto simp: nodeOp_eq_0)
        note g' = siblingGroup_SomeD [OF f'(1)]
        from g'(6) f'(2) have r: "i < f'" "f' < i + 8" by simp_all
        have "siblingGroup tree f' = Some f"
          using r by (intro group_member [OF v si f(1)]) simp_all
        moreover have "siblingGroup tree f' = Some f'"
          using g'(5) r by (intro group_member [OF v i8 f'(1)]) simp_all
        ultimately show False using r by simp
      qed
      have rest: "successively isNode (?from (i + 8)) \<and> hd (?from (i + 8)) = tree ! (i + 8)"
        using g(3) next_ok i by (intro less.hyps) auto
      have "tree ! (f + 8) = tree ! f + 8 * ?r1"
        using leaf1(1) by (intro group_keys [OF g(4)]) (simp_all add: isPow8_pos)
      then have k8: "tree ! (i + 8) = tree ! i + 8 * ?r1" by simp
      from group_aligned(1) [OF v si f(1)] have al: "8 * ?r1 dvd tree ! i" by simp
      have "isNode (tree ! i) (tree ! i + 8 * ?r1)"
        using leaf1(1) al by (simp add: isNode_def isPow8_pos isPow8_times8)
      with rest k8 have "successively isNode (tree ! i # ?from (i + 8))"
        by (simp add: successively_Cons)
      moreover have "?from i = tree ! i # ?from (i + 8)"
        using keysFrom_step [OF i] keep skip by (simp add: newKeys_def nodeKeys_def)
      ultimately show ?thesis by simp
    qed
  qed
qed

lemma nodeOp_first: "nodeOp L tree counts bucketSize 0 \<noteq> 0"
  by (simp add: nodeOp_eq_0)

lemma rebalanceTree_keysFrom:
  "rebalanceTree tree (fst (rebalanceDecision L tree counts bucketSize)) =
     keysFrom L tree counts bucketSize 0"
proof -
  have eq: "map (\<lambda>i. nodeKeys tree i (map (nodeOp L tree counts bucketSize) [0..<nNodes tree] ! i))
          [0..<nNodes tree] = map (newKeys L tree counts bucketSize) [0..<nNodes tree]"
    by (rule map_cong [OF refl]) (simp add: newKeys_def)
  show ?thesis
    unfolding rebalanceTree_def rebalanceDecision_def keysFrom_def Let_def fst_conv
    by (simp only: eq)
qed

lemma rebalance_invariants:
  assumes "checkOctreeInvariants L tree"
  shows "checkOctreeInvariants L
           (rebalanceTree tree (fst (rebalanceDecision L tree counts bucketSize)))"
proof -
  let ?new = "keysFrom L tree counts bucketSize 0"
  from keysFrom_chain [OF assms, of 0 counts bucketSize] nodeOp_first
  have c: "successively isNode ?new" and h: "hd ?new = tree ! 0" by simp_all
  from assms have "tree ! 0 = 0" by (simp add: checkOctreeInvariants_def)
  moreover have "last ?new = tree ! nNodes tree" by (simp add: keysFrom_def)
  moreover from assms have "tree ! nNodes tree = nodeRange L 0"
    by (simp add: checkOctreeInvariants_def)
  ultimately show ?thesis
    unfolding rebalanceTree_keysFrom invariants_successively
    using c h by (simp add: keysFrom_nonempty)
qed

lemma root_invariants: "checkOctreeInvariants L [0, nodeRange L 0]"
proof -
  have "isPow8 (8 ^ L)" unfolding isPow8_iff by blast
  then show ?thesis
    by (simp add: checkOctreeInvariants_def nNodes_def nodeRange_def leafRange_def)
qed

lemma updateOctree_invariants:
  assumes "checkOctreeInvariants L tree0"
    and "updateOctree maxIterations L keys bucketSize tree0 = Some (tree, counts)"
  shows "checkOctreeInvariants L tree"
  using assms
proof (induction maxIterations arbitrary: tree0)
  case 0
  then show ?case by simp
next
  case (Suc n)
  let ?counts = "computeNodeCounts tree0 keys (2 ^ 32 - 1)"
  let ?d = "rebalanceDecision L tree0 ?counts bucketSize"
  show ?case
  proof (cases "snd ?d")
    case True
    with Suc.prems(2) have "tree = tree0"
      by (simp add: Let_def split: prod.splits)
    with Suc.prems(1) show ?thesis by simp
  next
    case False
    with Suc.prems(2)
    have "updateOctree n L keys bucketSize (rebalanceTree tree0 (fst ?d)) = Some (tree, counts)"
      by (simp add: Let_def split: prod.splits)
    moreover have "checkOctreeInvariants L (rebalanceTree tree0 (fst ?d))"
      using Suc.prems(1) by (rule rebalance_invariants)
    ultimately show ?thesis by (rule Suc.IH [rotated])
  qed
qed

lemma largestNodeRange_node:
  assumes "a < b"
  shows "isPow8 (largestNodeRange l a b) \<and> largestNodeRange l a b dvd a \<and>
         a + largestNodeRange l a b \<le> b"
proof (induction l)
  case 0
  from assms show ?case by (simp add: isPow8.simps)
next
  case (Suc l)
  have "isPow8 (8 ^ Suc l)" unfolding isPow8_iff by blast
  with Suc show ?case by simp
qed

lemma spanRange_chain:
  "a < b \<Longrightarrow> spanRange L a b \<noteq> [] \<and> hd (spanRange L a b) = a \<and>
     successively isNode (spanRange L a b @ [b])"
proof (induction L a b rule: spanRange.induct)
  case (1 L a b)
  let ?s = "largestNodeRange L a b"
  from largestNodeRange_node [OF "1.prems", of L]
  have s: "isPow8 ?s" "?s dvd a" "a + ?s \<le> b" by simp_all
  have n: "isNode a (a + ?s)" using s by (simp add: isNode_def isPow8_pos)
  have unf: "spanRange L a b = a # spanRange L (a + ?s) b"
    using "1.prems" by (subst spanRange.simps) simp
  show ?case
  proof (cases "a + ?s < b")
    case True
    from "1.IH" [OF "1.prems" True]
    have "spanRange L (a + ?s) b \<noteq> []" "hd (spanRange L (a + ?s) b) = a + ?s"
      "successively isNode (spanRange L (a + ?s) b @ [b])" by simp_all
    with n show ?thesis unfolding unf by (simp add: successively_Cons)
  next
    case False
    with s(3) have e: "a + ?s = b" by simp
    then have "spanRange L (a + ?s) b = []" by (subst spanRange.simps) simp
    with n e show ?thesis unfolding unf by simp
  qed
qed

lemma chain_append:
  assumes "successively P (xs @ [b])" and "successively P ys" and "ys \<noteq> []" and "hd ys = b"
  shows "successively P (xs @ ys)"
  using assms by (auto simp: successively_append_iff)

lemma computeSpanningTree_chain:
  "sorted_wrt (<) cornerstones \<Longrightarrow> cornerstones \<noteq> [] \<Longrightarrow>
     computeSpanningTree L cornerstones \<noteq> [] \<and>
     hd (computeSpanningTree L cornerstones) = hd cornerstones \<and>
     last (computeSpanningTree L cornerstones) = last cornerstones \<and>
     successively isNode (computeSpanningTree L cornerstones)"
proof (induction L cornerstones rule: computeSpanningTree.induct)
  case (1 L)
  then show ?case by simp
next
  case (2 L c)
  then show ?case by simp
next
  case (3 L a b cornerstones)
  from "3.prems" have ab: "a < b" and rest: "sorted_wrt (<) (b # cornerstones)" by simp_all
  from "3.IH" [OF rest]
  have ih: "computeSpanningTree L (b # cornerstones) \<noteq> []"
    "hd (computeSpanningTree L (b # cornerstones)) = b"
    "last (computeSpanningTree L (b # cornerstones)) = last (b # cornerstones)"
    "successively isNode (computeSpanningTree L (b # cornerstones))" by simp_all
  from spanRange_chain [OF ab, of L]
  have sp: "spanRange L a b \<noteq> []" "hd (spanRange L a b) = a"
    "successively isNode (spanRange L a b @ [b])" by simp_all
  have "successively isNode (spanRange L a b @ computeSpanningTree L (b # cornerstones))"
    by (rule chain_append [OF sp(3) ih(4) ih(1) ih(2)])
  with ih sp show ?case by simp
qed

lemma computeSpanningTree_invariants:
  assumes "sorted_wrt (<) cornerstones" and "cornerstones \<noteq> []"
    and "hd cornerstones = 0" and "last cornerstones = nodeRange L 0"
  shows "checkOctreeInvariants L (computeSpanningTree L cornerstones)"
  using computeSpanningTree_chain [OF assms(1,2), of L] assms(3,4)
  by (simp add: invariants_successively)

lemma rebalanceTree_keep:
  assumes "tree \<noteq> []"
  shows "rebalanceTree tree (replicate (nNodes tree) 1) = tree"
proof -
  have e1: "map (\<lambda>i. nodeKeys tree i (replicate (nNodes tree) 1 ! i)) [0..<nNodes tree] =
        map (\<lambda>i. [tree ! i]) [0..<nNodes tree]"
    by (rule map_cong [OF refl]) (simp add: nodeKeys_def)
  have e2: "concat (map (\<lambda>i. [tree ! i]) [0..<n]) = map ((!) tree) [0..<n]" for n
    by (induction n) simp_all
  have e3: "map ((!) tree) [0..<nNodes tree] = take (nNodes tree) tree"
    by (rule nth_equalityI) (simp_all add: nNodes_def)
  have e4: "take (nNodes tree) tree @ [tree ! nNodes tree] = tree"
    using assms by (simp add: nNodes_def take_Suc_conv_app_nth [symmetric])
  show ?thesis unfolding rebalanceTree_def by (simp only: e1 e2 e3 e4)
qed

text \<open>
  Claim C1. Every tree that a tree-building operation produces satisfies the invariants
  of a cornerstone tree: the first key is 0, the last key is \<open>nodeRange(0)\<close>, the keys
  increase strictly, and every span is a power of eight of which the start key is a
  multiple. \<open>computeOctree\<close> starts from the root; \<open>updateOctree\<close> and \<open>rebalanceTree\<close> (with
  the opcodes of \<open>rebalanceDecision\<close>, for any counts and bucket size) start from a tree
  that satisfies the invariants; \<open>computeSpanningTree\<close> takes strictly increasing
  cornerstones from 0 to \<open>nodeRange(0)\<close>.
\<close>

theorem cornerstone_invariants:
  "(computeOctree maxIterations L keys bucketSize = Some (tree, counts) \<longrightarrow>
      checkOctreeInvariants L tree) \<and>
   (checkOctreeInvariants L tree0 \<and>
    updateOctree maxIterations L keys bucketSize tree0 = Some (tree, counts) \<longrightarrow>
      checkOctreeInvariants L tree) \<and>
   (checkOctreeInvariants L tree0 \<longrightarrow>
      checkOctreeInvariants L
        (rebalanceTree tree0 (fst (rebalanceDecision L tree0 counts0 bucketSize)))) \<and>
   (sorted_wrt (<) cornerstones \<and> cornerstones \<noteq> [] \<and> hd cornerstones = 0 \<and>
    last cornerstones = nodeRange L 0 \<longrightarrow>
      checkOctreeInvariants L (computeSpanningTree L cornerstones))"
proof (intro conjI impI)
  assume "computeOctree maxIterations L keys bucketSize = Some (tree, counts)"
  then show "checkOctreeInvariants L tree"
    unfolding computeOctree_def by (rule updateOctree_invariants [OF root_invariants])
next
  assume "checkOctreeInvariants L tree0 \<and>
    updateOctree maxIterations L keys bucketSize tree0 = Some (tree, counts)"
  then show "checkOctreeInvariants L tree"
    using updateOctree_invariants by blast
next
  assume "checkOctreeInvariants L tree0"
  then show "checkOctreeInvariants L
      (rebalanceTree tree0 (fst (rebalanceDecision L tree0 counts0 bucketSize)))"
    by (rule rebalance_invariants)
next
  assume "sorted_wrt (<) cornerstones \<and> cornerstones \<noteq> [] \<and> hd cornerstones = 0 \<and>
    last cornerstones = nodeRange L 0"
  then show "checkOctreeInvariants L (computeSpanningTree L cornerstones)"
    using computeSpanningTree_invariants by blast
qed

theorem cornerstone_invariants_witness:
  "computeOctree 3 2 [0, 8, 9, 43] 3 =
     Some ([0, 8, 16, 24, 32, 40, 48, 56, 64], [1, 2, 0, 0, 0, 1, 0, 0]) \<and>
   checkOctreeInvariants 2 [0, 8, 16, 24, 32, 40, 48, 56, 64] \<and>
   checkOctreeInvariants 2 [0, 64] \<and>
   updateOctree 3 2 [0, 8, 9, 43] 3 [0, 64] =
     Some ([0, 8, 16, 24, 32, 40, 48, 56, 64], [1, 2, 0, 0, 0, 1, 0, 0]) \<and>
   checkOctreeInvariants 2 (rebalanceTree [0, 64] (fst (rebalanceDecision 2 [0, 64] [4] 3))) \<and>
   rebalanceTree [0, 64] (fst (rebalanceDecision 2 [0, 64] [4] 3)) =
     [0, 8, 16, 24, 32, 40, 48, 56, 64] \<and>
   checkOctreeInvariants 2 (computeSpanningTree 2 [0, 1, 63, 64]) \<and>
   length (computeSpanningTree 2 [0, 1, 63, 64]) = 23"
proof -
  let ?T = "[0, 8, 16, 24, 32, 40, 48, 56, 64] :: nat list"
  let ?C = "[1, 2, 0, 0, 0, 1, 0, 0] :: nat list"
  have c: "computeOctree 3 2 [0, 8, 9, 43] 3 = Some (?T, ?C)" by code_simp
  have u: "updateOctree 3 2 [0, 8, 9, 43] 3 [0, 64] = Some (?T, ?C)" by code_simp
  have r: "checkOctreeInvariants 2 [0, 64]" by code_simp
  have t: "rebalanceTree [0, 64] (fst (rebalanceDecision 2 [0, 64] [4] 3)) = ?T" by code_simp
  have s: "sorted_wrt (<) [0, 1, 63, 64 :: nat] \<and> [0, 1, 63, 64 :: nat] \<noteq> [] \<and>
      hd [0, 1, 63, 64 :: nat] = 0 \<and> last [0, 1, 63, 64 :: nat] = nodeRange 2 0"
    by (simp add: nodeRange_def)
  have l: "length (computeSpanningTree 2 [0, 1, 63, 64]) = 23" by code_simp
  note th = cornerstone_invariants [of 3 2 "[0, 8, 9, 43]" 3 ?T ?C "[0, 64]" "[4]" "[0, 1, 63, 64]"]
  from th c have 1: "checkOctreeInvariants 2 ?T" by blast
  from th r have 3: "checkOctreeInvariants 2
      (rebalanceTree [0, 64] (fst (rebalanceDecision 2 [0, 64] [4] 3)))" by blast
  from th s have 4: "checkOctreeInvariants 2 (computeSpanningTree 2 [0, 1, 63, 64])" by blast
  from c 1 r u 3 t 4 l show ?thesis by (intro conjI)
qed

text \<open>
  Claim C2, as amended. When every leaf whose count exceeds the bucket size is at the
  deepest level, and no group of eight sibling leaves has a combined count within the
  bucket size, \<open>rebalanceDecision\<close> gives opcode 1 to every leaf and reports convergence,
  and rebalancing with these opcodes returns the tree unchanged. In particular an oversized
  leaf at the deepest level is not split.
\<close>

theorem rebalanceDecision_converged:
  assumes "tree \<noteq> []"
    and "\<forall>i<nNodes tree. bucketSize < counts ! i \<longrightarrow> treeLevel L (leafRange tree i) = L"
    and "\<forall>i<nNodes tree. case siblingGroup tree i of
           None \<Rightarrow> True | Some f \<Rightarrow> bucketSize < groupCount counts f"
  shows "rebalanceDecision L tree counts bucketSize = (replicate (nNodes tree) 1, True) \<and>
         rebalanceTree tree (fst (rebalanceDecision L tree counts bucketSize)) = tree"
proof -
  have "map (nodeOp L tree counts bucketSize) [0..<nNodes tree] = replicate (nNodes tree) 1"
  proof (rule nth_equalityI)
    show "length (map (nodeOp L tree counts bucketSize) [0..<nNodes tree]) =
        length (replicate (nNodes tree) (1::nat))" by simp
  next
    fix i assume "i < length (map (nodeOp L tree counts bucketSize) [0..<nNodes tree])"
    then have i: "i < nNodes tree" by simp
    with assms(2,3) have "nodeOp L tree counts bucketSize i = 1"
      by (intro nodeOp_keep) (auto split: option.splits)
    with i show "map (nodeOp L tree counts bucketSize) [0..<nNodes tree] ! i =
        replicate (nNodes tree) 1 ! i" by simp
  qed
  then have d: "rebalanceDecision L tree counts bucketSize = (replicate (nNodes tree) 1, True)"
    by (simp add: rebalanceDecision_def list_all_iff)
  with rebalanceTree_keep [OF assms(1)] show ?thesis by simp
qed

theorem rebalanceDecision_converged_witness:
  "rebalanceDecision 2 [0, 1, 2, 3, 4, 5, 6, 7, 8, 16, 24, 32, 40, 48, 56, 64]
     [2, 1, 1, 1, 1, 1, 1, 1, 1, 1, 1, 1, 1, 1, 1] 1 = (replicate 15 1, True) \<and>
   treeLevel 2 (leafRange [0, 1, 2, 3, 4, 5, 6, 7, 8, 16, 24, 32, 40, 48, 56, 64] 0) = 2 \<and>
   rebalanceTree [0, 1, 2, 3, 4, 5, 6, 7, 8, 16, 24, 32, 40, 48, 56, 64]
     (fst (rebalanceDecision 2 [0, 1, 2, 3, 4, 5, 6, 7, 8, 16, 24, 32, 40, 48, 56, 64]
        [2, 1, 1, 1, 1, 1, 1, 1, 1, 1, 1, 1, 1, 1, 1] 1)) =
     [0, 1, 2, 3, 4, 5, 6, 7, 8, 16, 24, 32, 40, 48, 56, 64]"
proof -
  let ?t = "[0, 1, 2, 3, 4, 5, 6, 7, 8, 16, 24, 32, 40, 48, 56, 64] :: nat list"
  let ?c = "[2, 1, 1, 1, 1, 1, 1, 1, 1, 1, 1, 1, 1, 1, 1] :: nat list"
  have n: "nNodes ?t = 15" by (simp add: nNodes_def)
  have "list_all (\<lambda>i. 1 < ?c ! i \<longrightarrow> treeLevel 2 (leafRange ?t i) = 2) [0..<15]"
    by code_simp
  then have h2: "\<forall>i<nNodes ?t. 1 < ?c ! i \<longrightarrow> treeLevel 2 (leafRange ?t i) = 2"
    unfolding n list_all_iff by simp
  have "list_all (\<lambda>i. case siblingGroup ?t i of None \<Rightarrow> True | Some f \<Rightarrow> 1 < groupCount ?c f)
      [0..<15]" by code_simp
  then have h3: "\<forall>i<nNodes ?t. case siblingGroup ?t i of
      None \<Rightarrow> True | Some f \<Rightarrow> 1 < groupCount ?c f"
    unfolding n list_all_iff by simp
  have h1: "?t \<noteq> []" by simp
  have l: "treeLevel 2 (leafRange ?t 0) = 2" by code_simp
  note th = rebalanceDecision_converged [OF h1 h2 h3]
  from th have "rebalanceDecision 2 ?t ?c 1 = (replicate (nNodes ?t) 1, True)"
    by (rule conjunct1)
  then have a: "rebalanceDecision 2 ?t ?c 1 = (replicate 15 1, True)" by (simp only: n)
  from th have b: "rebalanceTree ?t (fst (rebalanceDecision 2 ?t ?c 1)) = ?t"
    by (rule conjunct2)
  from a l b show ?thesis by (intro conjI)
qed

text \<open>
  Claim C2 as stated fails: that no leaf needs a split does not keep the tree, because
  siblings are merged. The root divided once, with no particle at all and bucket size 1,
  has no leaf above the bucket size; the seven later siblings get opcode 0 and the
  decision does not report convergence.
\<close>

theorem rebalanceDecision_merge_counterexample:
  "sum_list [0, 0, 0, 0, 0, 0, 0, 0 :: nat] \<le> 1 \<and>
   rebalanceDecision 10
     [0, 134217728, 268435456, 402653184, 536870912, 671088640, 805306368, 939524096, 1073741824]
     [0, 0, 0, 0, 0, 0, 0, 0] 1 = ([1, 0, 0, 0, 0, 0, 0, 0], False)"
  by code_simp

section \<open>Halo radii per leaf\<close>

lemma lower_bound_Cons:
  "lower_bound (x # xs) v = (if x < v then Suc (lower_bound xs v) else 0)"
  by (simp add: lower_bound_def)

lemma lower_bound_less_iff:
  fixes xs :: "'a::linorder list"
  shows "sorted xs \<Longrightarrow> p < length xs \<Longrightarrow> p < lower_bound xs v \<longleftrightarrow> xs ! p < v"
proof (induction xs arbitrary: p)
  case Nil
  then show ?case by simp
next
  case (Cons x xs)
  show ?case
  proof (cases p)
    case 0
    then show ?thesis by (simp add: lower_bound_Cons)
  next
    case (Suc q)
    with Cons.prems have q: "q < length xs" and s: "sorted xs" and le: "x \<le> xs ! q"
      by simp_all
    from Cons.IH [OF s q] have "q < lower_bound xs v \<longleftrightarrow> xs ! q < v" .
    with le Suc show ?thesis by (auto simp: lower_bound_Cons)
  qed
qed

lemma lower_bound_le_length: "lower_bound xs v \<le> length xs"
  by (simp add: lower_bound_def length_takeWhile_le)

lemma particlesInLeaf_interval:
  assumes "sorted keys"
  shows "particlesInLeaf tree keys i =
           {lower_bound keys (tree ! i)..<lower_bound keys (tree ! Suc i)}"
proof (rule set_eqI)
  fix p
  show "p \<in> particlesInLeaf tree keys i \<longleftrightarrow>
        p \<in> {lower_bound keys (tree ! i)..<lower_bound keys (tree ! Suc i)}"
  proof (cases "p < length keys")
    case True
    from lower_bound_less_iff [OF assms True]
    have "p < lower_bound keys (tree ! i) \<longleftrightarrow> keys ! p < tree ! i"
      and "p < lower_bound keys (tree ! Suc i) \<longleftrightarrow> keys ! p < tree ! Suc i" by simp_all
    with True show ?thesis by (auto simp: particlesInLeaf_def)
  next
    case False
    with lower_bound_le_length [of keys "tree ! Suc i"] show ?thesis
      by (auto simp: particlesInLeaf_def)
  qed
qed

lemma fold_max_Max:
  fixes xs :: "'a::linorder list"
  shows "fold max xs a = Max (insert a (set xs))"
  using Max.set_eq_fold [of a xs] by simp

text \<open>
  Claim C3, as amended. For sorted particle keys, computeHaloRadii writes for each leaf twice
  the maximum of 0 and the smoothing lengths, looked up through the permutation, of the
  particles whose keys lie in the span of the leaf: twice the largest smoothing length in
  the leaf when the lengths are not negative, and 0 for a leaf without particles.
\<close>

theorem computeHaloRadii_leaf:
  assumes "sorted keys" and "i < nNodes tree"
  shows "computeHaloRadii tree keys particleOrder input ! i =
           2 * Max (insert 0 ((\<lambda>p. input ! (particleOrder ! p)) ` particlesInLeaf tree keys i))"
proof -
  have "set (map (\<lambda>p. input ! (particleOrder ! p))
          [lower_bound keys (tree ! i)..<lower_bound keys (tree ! Suc i)]) =
        (\<lambda>p. input ! (particleOrder ! p)) ` particlesInLeaf tree keys i"
    by (simp add: particlesInLeaf_interval [OF assms(1)])
  then show ?thesis
    using assms(2) by (simp add: computeHaloRadii_def fold_max_Max del: set_map)
qed

theorem computeHaloRadii_leaf_witness:
  "computeHaloRadii [0, 8, 16, 24, 32] [0, 4, 8, 14, 20, 24, 25, 26, 31]
     [0, 1, 2, 3, 4, 5, 6, 7, 8] [2, 1, 4, 3, 5, 8, 2, 1, 3 :: int] ! 1 = 2 * Max {0, 4, 3} \<and>
   particlesInLeaf [0, 8, 16, 24, 32] [0, 4, 8, 14, 20, 24, 25, 26, 31] 1 = {2, 3}"
proof -
  have s: "sorted [0, 4, 8, 14, 20, 24, 25, 26, 31 :: nat]" by simp
  have n: "1 < nNodes [0, 8, 16, 24, 32]" by (simp add: nNodes_def)
  have p: "particlesInLeaf [0, 8, 16, 24, 32] [0, 4, 8, 14, 20, 24, 25, 26, 31] 1 = {2, 3}"
    by code_simp
  from computeHaloRadii_leaf [OF s n, of "[0, 1, 2, 3, 4, 5, 6, 7, 8]"
      "[2, 1, 4, 3, 5, 8, 2, 1, 3 :: int]"] p
  show ?thesis by simp
qed

text \<open>
  Claim C3 as stated fails on the input of the unit test computeHaloRadii: the particles of
  the first leaf have the smoothing lengths 2 and 1, with maximum 2, and the value written
  for the leaf is 4, as the reference values of the test require.
\<close>

theorem computeHaloRadii_factor_counterexample:
  "computeHaloRadii [0, 8, 16, 24, 32] [0, 4, 8, 14, 20, 24, 25, 26, 31]
     [0, 1, 2, 3, 4, 5, 6, 7, 8] [2, 1, 4, 3, 5, 8, 2, 1, 3 :: int] = [4, 8, 10, 16] \<and>
   particlesInLeaf [0, 8, 16, 24, 32] [0, 4, 8, 14, 20, 24, 25, 26, 31] 0 = {0, 1} \<and>
   Max {2, 1 :: int} = 2 \<and> (4 :: int) \<noteq> 2"
  by code_simp

lemma computeHaloRadii_spanningTree_test:
  "computeHaloRadii [0, 1, 63, 64] [0, 0, 63, 63] [0, 1, 2, 3] [21, 20, 20, 22 :: int] =
     [42, 0, 44]"
  by code_simp

section \<open>Rebalancing decisions of the focused tree\<close>

lemmas essential_eval = rebalanceDecisionEssential_def essentialOp_def rebalanceDecision_def
  nodeOp_def siblingGroup_def siblingIndex_def leafRange_def groupCount_def treeLevel_def
  log8.simps nNodes_def Let_def upt_rec checkOctreeInvariants_def isPow8.simps nodeRange_def
  focusTestTree01_def focusTestParents01_def focusTestTree07_def focusTestParents07_def

lemma rebalanceDecisionEssential_test1:
  "rebalanceDecisionEssential 10 focusTestTree07 3 22 focusTestParents07
     [1, 1, 1, 2, 1, 1, 1, 1, 1, 1, 2, 1, 1, 1, 0, 0, 0, 0, 0, 0, 0, 0]
     [1, 1, 1, 0, 0, 1, 0, 1, 1, 1, 1, 1, 0, 1, 1, 1, 1, 1, 0, 0, 0, 0, 0, 0, 0] 0 8 1 =
     ([1, 1, 1, 8, 1, 1, 1, 1, 1, 1, 8, 1, 1, 1, 1, 0, 0, 0, 0, 0, 0, 0], False)"
  by (simp add: essential_eval)

lemma rebalanceDecisionEssential_test2:
  "rebalanceDecisionEssential 10 focusTestTree07 3 22 focusTestParents07
     [1, 1, 1, 1, 1, 1, 1, 1, 1, 1, 1, 1, 1, 1, 0, 0, 2, 1, 0, 0, 0, 0]
     [1, 1, 1, 0, 0, 1, 1, 1, 1, 1, 1, 1, 0, 1, 1, 1, 1, 0, 0, 0, 0, 0, 0, 0, 0] 0 8 1 =
     ([1, 1, 1, 1, 1, 1, 1, 1, 1, 1, 1, 1, 1, 1, 1, 1, 1, 1, 1, 1, 1, 1], True)"
  by (simp add: essential_eval)

lemma rebalanceDecisionEssential_test3:
  "rebalanceDecisionEssential 10 focusTestTree07 3 22 focusTestParents07
     [1, 1, 1, 1, 1, 1, 1, 1, 1, 1, 1, 1, 1, 1, 0, 0, 2, 1, 0, 0, 0, 0]
     [1, 1, 0, 0, 0, 1, 1, 1, 1, 1, 1, 1, 0, 1, 1, 1, 1, 0, 0, 0, 0, 0, 0, 0, 0] 0 8 1 =
     ([1, 1, 1, 1, 1, 1, 1, 1, 1, 1, 1, 1, 1, 1, 1, 0, 0, 0, 0, 0, 0, 0], False)"
  by (simp add: essential_eval)

lemma rebalanceDecisionEssential_test4:
  "rebalanceDecisionEssential 10 focusTestTree01 3 22 focusTestParents01
     [1, 2, 1, 1, 1, 1, 1, 1, 1, 1, 0, 0, 1, 1, 2, 1, 2, 1, 1, 2, 1, 1]
     [1, 1, 0, 0, 1, 0, 0, 0, 0, 0, 0, 0, 0, 0, 0, 0, 0, 0, 0, 1, 0, 0, 0, 0, 0] 2 10 1 =
     ([1, 8, 1, 1, 1, 1, 1, 1, 1, 1, 1, 1, 1, 1, 1, 1, 8, 1, 1, 1, 1, 1], False)"
  by (simp add: essential_eval)






end
